theory Spec2Isabelle
  imports Complex_Main "HOL-Library.AList" "HOL-Library.Multiset"
begin

section \<open>Jobs and their results (job.ts)\<close>

text \<open>
  A property value is a number or a string; \<open>properties\<close> is an object, kept as an
  association list in insertion order. \<open>JobResult<T, P>\<close> is the tagged union of the
  source; \<open>T\<close> is \<open>'v\<close> and the rejection reason (\<open>any\<close>) is \<open>'r\<close>.
\<close>

datatype val = VNum int | VStr string

type_synonym props = "(string \<times> val) list"

datatype ('v, 'r) jobResult =
    Fulfilled 'v props
  | Rejected 'r props

fun status :: "('v, 'r) jobResult \<Rightarrow> string" where
  "status (Fulfilled v p) = ''fulfilled''"
| "status (Rejected r p) = ''rejected''"

fun result_properties :: "('v, 'r) jobResult \<Rightarrow> props" where
  "result_properties (Fulfilled v p) = p"
| "result_properties (Rejected r p) = p"

text \<open>
  A job is its \<open>properties\<close> and its \<open>execute\<close> callback. The callback is opaque code:
  \<open>execute\<close> is a handle naming it. What the callback does is given from outside, in two
  parts: the part that runs synchronously inside the call \<open>job.execute(...)\<close>, before the
  callback first suspends, is a function on the engine state (type \<open>sync\<close> below, applied
  where the source makes the call), and the settlement of the promise it returns is an
  event of the run (\<open>Settle\<close>), carrying the value or the reason.
\<close>

record job =
  execute :: nat
  properties :: props

record jobWithId = job +
  concurrentJobId :: nat

datatype error = Error string

text \<open>Object spread \<open>{ ...a, ...b }\<close>: the keys of \<open>a\<close> in order, overwritten by \<open>b\<close>,
  then the new keys of \<open>b\<close>.\<close>

definition spread :: "props \<Rightarrow> props \<Rightarrow> props" where
  "spread a b = foldl (\<lambda>acc kv. AList.update (fst kv) (snd kv) acc) a b"

text \<open>The three arguments of one \<open>logger.warn\<close> call of the watchdog: the message, the
  \<open>minutes\<close> of the second argument and the merged object.\<close>

type_synonym warning = "string \<times> nat \<times> props"

definition watchdog_report :: "nat \<Rightarrow> nat \<Rightarrow> nat \<Rightarrow> props \<Rightarrow> warning" where
  "watchdog_report nowT startTime workerId jobProps =
     (''Long-running job detected.'',
      (nowT - startTime) div 60000,
      spread [(''workerId'', VNum (int workerId))] jobProps)"

section \<open>ConcurrentWorkerPool (ConcurrentWorkerPool.ts)\<close>

text \<open>
  One invocation of the async method \<open>worker(workerId)\<close> is a task. Between two
  suspensions a task runs without interruption; the state of a task says where it is
  suspended:
  \<^item> \<open>Running\<close>: on the call stack (only while its own synchronous segment runs);
  \<^item> \<open>AwaitWork p\<close>: at \<open>await this.waitForWorkAvailable()\<close>, on promise \<open>p\<close>;
  \<^item> \<open>AwaitJob job resolve startTime ticks\<close>: at \<open>await job.execute(...)\<close>, with the
    \<open>resolve\<close> it read from \<open>resolveMap\<close> (\<open>None\<close> is \<open>undefined\<close>), its \<open>startTime\<close>, and
    the number of times its interval timer has fired;
  \<^item> \<open>Returned\<close>: the worker's promise is fulfilled;
  \<^item> \<open>Threw\<close>: the worker's promise is rejected (calling an undefined \<open>resolve\<close>).
\<close>

datatype wstate =
    Running
  | AwaitWork nat
  | AwaitJob jobWithId "nat option" nat nat
  | Returned
  | Threw

text \<open>A call of \<open>finishAllWork\<close> suspended at \<open>await Promise.all(this.workers)\<close> holds the
  worker promises it read; afterwards it has resolved or rejected.\<close>

datatype finisher = FinPending "nat list" | FinResolved | FinRejected

text \<open>
  The fields of the class, then the runtime the class runs on, then what an observer
  has seen so far.
  \<^item> \<open>resolveMap\<close> maps a job id to the promise its \<open>resolve\<close> settles; the promise that
    \<open>enqueue\<close> returns for job id \<open>n\<close> is promise \<open>n\<close>.
  \<^item> \<open>workers\<close> holds the worker promises, each by the index of its task in \<open>tasks\<close>.
  \<^item> \<open>tasks\<close>: every invocation of \<open>worker\<close> so far, as (workerId, state).
  \<^item> \<open>signals\<close>: every promise made by \<open>waitForWorkAvailable\<close>; \<open>True\<close> once resolved.
  \<^item> \<open>clock\<close>: the time in milliseconds (\<open>Date.now()\<close>).
  \<^item> \<open>finishers\<close>: the calls of \<open>finishAllWork\<close> so far.
  \<^item> \<open>accepted\<close>: every job that \<open>enqueue\<close> took, in order; job id \<open>n\<close> is \<open>accepted ! n\<close>.
  \<^item> \<open>delivered\<close>: every call of a per-job \<open>resolve\<close>, as (promise, JobResult), in order.
  \<^item> \<open>idleCalls\<close>: the number of \<open>waitForIdle\<close> calls so far; call number \<open>n\<close> returns
    promise \<open>n\<close>. \<open>idleResolved\<close>: the \<open>waitForIdle\<close> promises resolved, in order.
  \<^item> \<open>idleChecks\<close>: the number of times \<open>checkIfIdle\<close> has been called.
  \<^item> \<open>warnings\<close>: the calls of \<open>logger.warn\<close>, in order.
\<close>

record ('v, 'r) pool =
  concurrency :: int
  jobCounter :: nat
  resolveMap :: "(nat \<times> nat) list"
  queue :: "jobWithId list"
  activeJobs :: int
  waitingResolvers :: "nat list"
  workers :: "nat list"
  isAcceptingWork :: bool
  workAvailablePromise :: "nat option"
  resolveWorkAvailable :: "nat option"
  tasks :: "(nat \<times> wstate) list"
  signals :: "bool list"
  clock :: nat
  finishers :: "finisher list"
  accepted :: "job list"
  delivered :: "(nat \<times> ('v, 'r) jobResult) list"
  idleCalls :: nat
  idleResolved :: "nat list"
  idleChecks :: nat
  warnings :: "warning list"

text \<open>
  The call \<open>job.execute(...)\<close> made in a state of the pool either throws before it returns
  a promise (the body is not an \<open>async\<close> function and fails at once), leaving the pool as
  it was, or returns a promise after a synchronous part that may have called the pool
  and left it in another state.
\<close>

datatype ('v, 'r) called =
    Throws 'r
  | Suspends "('v, 'r) pool"

text \<open>What the calls do, by handle, workerId, properties and state.\<close>

type_synonym ('v, 'r) sync = "nat \<Rightarrow> nat \<Rightarrow> props \<Rightarrow> ('v, 'r) pool \<Rightarrow> ('v, 'r) called"

text \<open>Job bodies that do not call the pool before they first suspend or throw; \<open>throws\<close>
  says which handles throw, and what.\<close>

definition opaque :: "(nat \<Rightarrow> 'r option) \<Rightarrow> ('v, 'r) sync" where
  "opaque throws x workerId p s = (case throws x of Some reason \<Rightarrow> Throws reason | None \<Rightarrow> Suspends s)"

text \<open>\<open>new ConcurrentWorkerPool(concurrency, logger)\<close>.\<close>

definition newPool :: "int \<Rightarrow> ('v, 'r) pool" where
  "newPool c =
     \<lparr> concurrency = c, jobCounter = 0, resolveMap = [], queue = [], activeJobs = 0,
       waitingResolvers = [], workers = [], isAcceptingWork = True,
       workAvailablePromise = None, resolveWorkAvailable = None,
       tasks = [], signals = [], clock = 0, finishers = [], accepted = [],
       delivered = [],
       idleCalls = 0, idleResolved = [], idleChecks = 0, warnings = [] \<rparr>"

definition set_task :: "nat \<Rightarrow> wstate \<Rightarrow> ('v, 'r) pool \<Rightarrow> ('v, 'r) pool" where
  "set_task t st s = s\<lparr> tasks := (tasks s)[t := (fst (tasks s ! t), st)] \<rparr>"

definition waitForWorkAvailable :: "('v, 'r) pool \<Rightarrow> nat \<times> ('v, 'r) pool" where
  "waitForWorkAvailable s =
     (case workAvailablePromise s of
        None \<Rightarrow>
          (let p = length (signals s)
           in (p, s\<lparr> signals := signals s @ [False],
                     workAvailablePromise := Some p,
                     resolveWorkAvailable := Some p \<rparr>))
      | Some p \<Rightarrow> (p, s))"

definition notifyWorkersOfNewWork :: "('v, 'r) pool \<Rightarrow> ('v, 'r) pool" where
  "notifyWorkersOfNewWork s =
     (case resolveWorkAvailable s of
        None \<Rightarrow> s
      | Some p \<Rightarrow> s\<lparr> signals := (signals s)[p := True],
                      workAvailablePromise := None,
                      resolveWorkAvailable := None \<rparr>)"

definition checkIfIdle :: "('v, 'r) pool \<Rightarrow> ('v, 'r) pool" where
  "checkIfIdle s0 =
     (let s = s0\<lparr> idleChecks := idleChecks s0 + 1 \<rparr>
      in if activeJobs s = 0 \<and> length (queue s) = 0
         then s\<lparr> idleResolved := idleResolved s @ waitingResolvers s,
                  waitingResolvers := [] \<rparr>
         else s)"

text \<open>The \<open>finally\<close> block of \<open>worker\<close> (\<open>clearInterval\<close> is the task leaving \<open>AwaitJob\<close>).\<close>

definition worker_finally :: "jobWithId \<Rightarrow> ('v, 'r) pool \<Rightarrow> ('v, 'r) pool" where
  "worker_finally j s =
     (let s1 = s\<lparr> activeJobs := activeJobs s - 1 \<rparr>;
          s2 = checkIfIdle s1
      in s2\<lparr> resolveMap := AList.delete (concurrentJobId j) (resolveMap s2) \<rparr>)"

text \<open>
  The body of \<open>worker\<close> from the head of its \<open>while\<close> loop to its next suspension or
  return, for the task \<open>t\<close>. Taking a job: \<open>activeJobs++\<close>, the start time, the interval
  timer, the read of \<open>resolveMap\<close>, then the call of \<open>job.execute\<close>. When the call returns
  a promise the task suspends at the \<open>await\<close>. When the call throws, the \<open>catch\<close> block
  calls \<open>resolve\<close> with the rejection, the \<open>finally\<close> block runs and the loop goes on at
  once; with \<open>resolve\<close> undefined the call in the \<open>catch\<close> block throws, the \<open>finally\<close>
  block runs and the worker's promise rejects.
\<close>

function worker_loop :: "('v, 'r) sync \<Rightarrow> nat \<Rightarrow> ('v, 'r) pool \<Rightarrow> ('v, 'r) pool" where
  "worker_loop sync t s =
     (if isAcceptingWork s \<or> length (queue s) > 0 then
        (case queue s of
           [] \<Rightarrow>
             (if \<not> isAcceptingWork s then set_task t Returned s
              else (case waitForWorkAvailable s of
                      (p, s') \<Rightarrow> set_task t (AwaitWork p) s'))
         | j # rest \<Rightarrow>
             (let s1 = s\<lparr> queue := rest, activeJobs := activeJobs s + 1 \<rparr>;
                  workerId = fst (tasks s1 ! t);
                  startTime = clock s1;
                  resolve = map_of (resolveMap s1) (concurrentJobId j)
              in case sync (execute j) workerId (properties j) s1 of
                   Suspends s2 \<Rightarrow> set_task t (AwaitJob j resolve startTime 0) s2
                 | Throws reason \<Rightarrow>
                     (case resolve of
                        None \<Rightarrow> set_task t Threw (worker_finally j s1)
                      | Some p \<Rightarrow>
                          worker_loop sync t
                            (worker_finally j
                               (s1\<lparr> delivered := delivered s1
                                        @ [(p, Rejected reason (properties j))] \<rparr>)))))
      else set_task t Returned s)"
  by pat_completeness auto

termination
  by (relation "measure (\<lambda>(sync, t, s). length (queue s))")
    (auto simp: worker_finally_def checkIfIdle_def Let_def)

text \<open>
  The task \<open>t\<close> resumes after \<open>await job.execute(...)\<close>: \<open>Inr value\<close> continues the \<open>try\<close>,
  \<open>Inl reason\<close> enters the \<open>catch\<close>. Either calls \<open>resolve\<close>; when \<open>resolve\<close> is
  \<open>undefined\<close> the call throws in the \<open>try\<close> and again in the \<open>catch\<close>, the \<open>finally\<close>
  block runs and the worker's promise rejects. Otherwise the loop goes on.
\<close>

definition worker_settled ::
  "('v, 'r) sync \<Rightarrow> nat \<Rightarrow> 'r + 'v \<Rightarrow> ('v, 'r) pool \<Rightarrow> ('v, 'r) pool" where
  "worker_settled sync t res s =
     (case snd (tasks s ! t) of
        AwaitJob j resolve startTime ticks \<Rightarrow>
          (case resolve of
             None \<Rightarrow> set_task t Threw (worker_finally j s)
           | Some p \<Rightarrow>
               (let outcome = (case res of
                                 Inr v \<Rightarrow> Fulfilled v (properties j)
                               | Inl r \<Rightarrow> Rejected r (properties j));
                    s1 = s\<lparr> delivered := delivered s @ [(p, outcome)] \<rparr>
                in worker_loop sync t (worker_finally j s1)))
      | _ \<Rightarrow> s)"

text \<open>One round of the \<open>for\<close> loop of \<open>ensureWorkers\<close>: \<open>this.worker(i + 1)\<close> runs to its
  first suspension, then its promise is pushed.\<close>

definition spawn_worker :: "('v, 'r) sync \<Rightarrow> ('v, 'r) pool \<Rightarrow> nat \<Rightarrow> ('v, 'r) pool" where
  "spawn_worker sync s i =
     (let t = length (tasks s);
          s1 = worker_loop sync t (s\<lparr> tasks := tasks s @ [(i + 1, Running)] \<rparr>)
      in s1\<lparr> workers := workers s1 @ [t] \<rparr>)"

definition ensureWorkers :: "('v, 'r) sync \<Rightarrow> ('v, 'r) pool \<Rightarrow> ('v, 'r) pool" where
  "ensureWorkers sync s =
     (if length (workers s) = 0 \<and> isAcceptingWork s
      then foldl (spawn_worker sync) s [0 ..< nat (concurrency s)]
      else s)"

definition enqueue :: "('v, 'r) sync \<Rightarrow> job \<Rightarrow> ('v, 'r) pool \<Rightarrow> error + ('v, 'r) pool" where
  "enqueue sync j s =
     (if \<not> isAcceptingWork s then Inl (Error ''Cannot enqueue jobs after shutdown'')
      else
        (let jobId = jobCounter s;
             s1 = s\<lparr> jobCounter := jobId + 1, accepted := accepted s @ [j] \<rparr>;
             jobWithId = \<lparr> execute = execute j, properties = properties j,
                           concurrentJobId = jobId \<rparr>;
             s2 = s1\<lparr> resolveMap := AList.update jobId jobId (resolveMap s1) \<rparr>;
             s3 = s2\<lparr> queue := queue s2 @ [jobWithId] \<rparr>;
             s4 = ensureWorkers sync s3
         in Inr (notifyWorkersOfNewWork s4)))"

definition waitForIdle :: "('v, 'r) pool \<Rightarrow> ('v, 'r) pool" where
  "waitForIdle s0 =
     (let w = idleCalls s0;
          s = s0\<lparr> idleCalls := w + 1 \<rparr>
      in if activeJobs s = 0 \<and> length (queue s) = 0
         then s\<lparr> idleResolved := idleResolved s @ [w] \<rparr>
         else s\<lparr> waitingResolvers := waitingResolvers s @ [w] \<rparr>)"

text \<open>\<open>finishAllWork\<close> up to its \<open>await\<close>, and its continuation once every promise it
  awaits is settled.\<close>

definition finishAllWork :: "('v, 'r) pool \<Rightarrow> ('v, 'r) pool" where
  "finishAllWork s =
     (let s1 = s\<lparr> isAcceptingWork := False \<rparr>;
          s2 = notifyWorkersOfNewWork s1
      in s2\<lparr> finishers := finishers s2 @ [FinPending (workers s2)] \<rparr>)"

definition task_state :: "('v, 'r) pool \<Rightarrow> nat \<Rightarrow> wstate" where
  "task_state s t = snd (tasks s ! t)"

definition finishAllWork_resume :: "nat \<Rightarrow> ('v, 'r) pool \<Rightarrow> ('v, 'r) pool" where
  "finishAllWork_resume k s =
     (if k < length (finishers s) then
        (case finishers s ! k of
           FinPending ws \<Rightarrow>
             (if list_ex (\<lambda>t. task_state s t = Threw) ws
              then s\<lparr> finishers := (finishers s)[k := FinRejected] \<rparr>
              else if list_all (\<lambda>t. task_state s t = Returned) ws
              then s\<lparr> workers := [], finishers := (finishers s)[k := FinResolved] \<rparr>
              else s)
         | _ \<Rightarrow> s)
      else s)"

definition queueLength :: "('v, 'r) pool \<Rightarrow> nat" where
  "queueLength s = length (queue s)"

definition activeJobCount :: "('v, 'r) pool \<Rightarrow> int" where
  "activeJobCount s = activeJobs s"

subsection \<open>The watchdog timers of the pool\<close>

text \<open>The interval set at \<open>startTime\<close> with period 60000 that has fired \<open>ticks\<close> times is
  next due at \<open>startTime + 60000 * (ticks + 1)\<close>.\<close>

definition due :: "nat \<Rightarrow> nat \<Rightarrow> nat" where
  "due startTime ticks = startTime + 60000 * (ticks + 1)"

definition timers_allow :: "(nat \<times> wstate) list \<Rightarrow> nat \<Rightarrow> bool" where
  "timers_allow ts newTime =
     list_all (\<lambda>tk. case snd tk of
                       AwaitJob j resolve startTime ticks \<Rightarrow> newTime \<le> due startTime ticks
                     | _ \<Rightarrow> True) ts"

definition fire :: "nat \<Rightarrow> ('v, 'r) pool \<Rightarrow> ('v, 'r) pool" where
  "fire t s =
     (case tasks s ! t of
        (workerId, AwaitJob j resolve startTime ticks) \<Rightarrow>
          (if clock s = due startTime ticks
           then (set_task t (AwaitJob j resolve startTime (ticks + 1)) s)
                  \<lparr> warnings := warnings s
                       @ [watchdog_report (clock s) startTime workerId (properties j)] \<rparr>
           else s)
      | _ \<Rightarrow> s)"

subsection \<open>Runs of the pool\<close>

text \<open>
  What can happen to a pool, one uninterrupted segment at a time: the three public
  calls; a job's promise settling (the worker resumes); a worker resuming after the
  work-available promise it awaits was resolved; \<open>finishAllWork\<close> resuming; an interval
  timer firing; time passing (never past a due timer). An event that cannot happen in
  the state leaves it as it is; an \<open>enqueue\<close> that throws changes nothing.
\<close>

datatype ('v, 'r) event =
    Enqueue job
  | WaitForIdle
  | FinishAllWork
  | FinishResume nat
  | Settle nat "'r + 'v"
  | Wake nat
  | Fire nat
  | Advance nat

definition wake :: "('v, 'r) sync \<Rightarrow> nat \<Rightarrow> ('v, 'r) pool \<Rightarrow> ('v, 'r) pool" where
  "wake sync t s =
     (case snd (tasks s ! t) of
        AwaitWork p \<Rightarrow> (if signals s ! p then worker_loop sync t s else s)
      | _ \<Rightarrow> s)"

fun step :: "('v, 'r) sync \<Rightarrow> ('v, 'r) pool \<Rightarrow> ('v, 'r) event \<Rightarrow> ('v, 'r) pool" where
  "step sync s (Enqueue j) = (case enqueue sync j s of Inl e \<Rightarrow> s | Inr s' \<Rightarrow> s')"
| "step sync s WaitForIdle = waitForIdle s"
| "step sync s FinishAllWork = finishAllWork s"
| "step sync s (FinishResume k) = finishAllWork_resume k s"
| "step sync s (Settle t res) = (if t < length (tasks s) then worker_settled sync t res s else s)"
| "step sync s (Wake t) = (if t < length (tasks s) then wake sync t s else s)"
| "step sync s (Fire t) = (if t < length (tasks s) then fire t s else s)"
| "step sync s (Advance d) = (if timers_allow (tasks s) (clock s + d) then s\<lparr> clock := clock s + d \<rparr> else s)"

definition run :: "('v, 'r) sync \<Rightarrow> int \<Rightarrow> ('v, 'r) event list \<Rightarrow> ('v, 'r) pool" where
  "run sync c es = foldl (step sync) (newPool c) es"


section \<open>runJobs (runJobs.ts)\<close>

subsection \<open>The concurrency argument\<close>

text \<open>
  A JavaScript number is \<open>NaN\<close>, an infinity or a finite value. Every finite double is a
  real number; the two zeros are one value here (the code does not tell them apart).
\<close>

datatype jsnumber = NaN | NegInfinity | Finite real | PosInfinity

text \<open>
  The value passed as \<open>concurrency\<close>. TypeScript declares a number; JavaScript passes any
  value:
  \<^item> \<open>Null\<close>, \<open>Undefined\<close>;
  \<^item> \<open>Number x\<close>: a number;
  \<^item> \<open>Other x\<close>: a boolean, a string or an object, given by the number that \<open>ToNumber\<close>
    converts it to (\<open>true\<close> is \<open>Other (Finite 1)\<close>, \<open>'3'\<close> is \<open>Other (Finite 3)\<close>, \<open>'abc'\<close> and
    \<open>{}\<close> are \<open>Other NaN\<close>, \<open>false\<close> and \<open>''\<close> are \<open>Other (Finite 0)\<close>);
  \<^item> \<open>BigInt b\<close>: the bigint \<open>b\<close>;
  \<^item> \<open>Symbol\<close>: a symbol.
\<close>

datatype concurrencyArg =
    Null
  | Undefined
  | Number jsnumber
  | Other jsnumber
  | BigInt int
  | Symbol

text \<open>
  What \<open>runJobs\<close> can throw (being \<open>async\<close>, it rejects its promise with it):
  \<^item> \<open>TemplateError a v b\<close> is \<^verbatim>\<open>new Error(`a${v}b`)\<close>: its message is \<open>a\<close>, then the value
    \<open>v\<close> converted to a string, then \<open>b\<close>;
  \<^item> \<open>RangeError\<close>: thrown by \<open>Array(n)\<close> for an invalid length;
  \<^item> \<open>TypeError\<close>: thrown by the conversion of a symbol or a bigint to a number.
\<close>

datatype thrown =
    TemplateError string concurrencyArg string
  | RangeError
  | TypeError

text \<open>\<open>ToNumber\<close>.\<close>

fun to_number :: "concurrencyArg \<Rightarrow> thrown + jsnumber" where
  "to_number Null = Inr (Finite 0)"
| "to_number Undefined = Inr NaN"
| "to_number (Number x) = Inr x"
| "to_number (Other x) = Inr x"
| "to_number (BigInt b) = Inl TypeError"
| "to_number Symbol = Inl TypeError"

text \<open>\<open>x <= 0\<close> on numbers: false for \<open>NaN\<close>.\<close>

fun number_le_zero :: "jsnumber \<Rightarrow> bool" where
  "number_le_zero NaN = False"
| "number_le_zero NegInfinity = True"
| "number_le_zero (Finite q) = (q \<le> 0)"
| "number_le_zero PosInfinity = False"

text \<open>The expression \<open>concurrency <= 0\<close>: a bigint is compared by its value, any other
  operand is converted to a number first; a symbol cannot be converted.\<close>

fun less_eq_zero :: "concurrencyArg \<Rightarrow> thrown + bool" where
  "less_eq_zero (BigInt b) = Inr (b \<le> 0)"
| "less_eq_zero Null = Inr (number_le_zero (Finite 0))"
| "less_eq_zero Undefined = Inr (number_le_zero NaN)"
| "less_eq_zero (Number x) = Inr (number_le_zero x)"
| "less_eq_zero (Other x) = Inr (number_le_zero x)"
| "less_eq_zero Symbol = Inl TypeError"

text \<open>\<open>Math.min(x, n)\<close> for a number \<open>x\<close> and an array length \<open>n\<close>.\<close>

fun math_min :: "jsnumber \<Rightarrow> nat \<Rightarrow> jsnumber" where
  "math_min NaN n = NaN"
| "math_min NegInfinity n = NegInfinity"
| "math_min (Finite q) n = Finite (min q (of_nat n))"
| "math_min PosInfinity n = Finite (of_nat n)"

text \<open>\<open>Array(x)\<close> for a number \<open>x\<close>: an array of that length when \<open>x\<close> is an integer from 0 to
  \<open>2^32 - 1\<close>, otherwise a \<open>RangeError\<close> (\<open>None\<close>).\<close>

fun array_length :: "jsnumber \<Rightarrow> nat option" where
  "array_length (Finite q) =
     (if of_int \<lfloor>q\<rfloor> = q \<and> 0 \<le> q \<and> q \<le> 4294967295 then Some (nat \<lfloor>q\<rfloor>) else None)"
| "array_length x = None"

subsection \<open>The call and its workers\<close>

text \<open>
  A job's \<open>execute\<close> either returns a promise, or throws before it returns one (it is not
  an \<open>async\<close> function and fails at once). Which handles throw, and what, is given from
  outside: \<open>Some reason\<close> for a handle that throws.
\<close>

type_synonym 'r throwing = "nat \<Rightarrow> 'r option"

text \<open>
  A task of \<open>runJobs\<close> is one invocation of its inner \<open>worker\<close>: on the stack, suspended
  at \<open>await jobs[i].execute(...)\<close> with its index \<open>i\<close>, start time and timer count, or
  returned.
\<close>

datatype rstate = RRunning | RAwaitJob nat nat nat | RReturned

text \<open>
  The variables of one call of \<open>runJobs\<close>: the array \<open>jobs\<close>, the array \<open>results\<close> (a hole
  is \<open>None\<close>), the cursor \<open>nextIndex\<close>; then the tasks as (workerId, state), the time, the
  calls of \<open>logger.warn\<close>, and the indices \<open>i\<close> of the calls \<open>jobs[i].execute(...)\<close> made so
  far, in order.
\<close>

record ('v, 'r) oneShot =
  jobs :: "job list"
  results :: "('v, 'r) jobResult option list"
  nextIndex :: nat
  runners :: "(nat \<times> rstate) list"
  time :: nat
  logged :: "warning list"
  executed :: "nat list"

text \<open>The assignment \<open>a[i] = v\<close> on a JavaScript array: past the end it extends the array,
  leaving holes.\<close>

definition array_set :: "'a option list \<Rightarrow> nat \<Rightarrow> 'a \<Rightarrow> 'a option list" where
  "array_set a i v =
     (if i < length a then a[i := Some v]
      else a @ replicate (i - length a) None @ [Some v])"

definition set_runner :: "nat \<Rightarrow> rstate \<Rightarrow> ('v, 'r) oneShot \<Rightarrow> ('v, 'r) oneShot" where
  "set_runner t st s = s\<lparr> runners := (runners s)[t := (fst (runners s ! t), st)] \<rparr>"

text \<open>
  The inner \<open>worker\<close> from the head of \<open>while (true)\<close> to its next suspension or return:
  \<open>const i = nextIndex++\<close>, the bound check, the start time and the interval timer, the
  call of \<open>execute\<close>. When the call throws, the \<open>catch\<close> block assigns \<open>results[i]\<close>, the
  \<open>finally\<close> block clears the timer and the loop goes on at once; otherwise the task
  suspends at the \<open>await\<close>.
\<close>

function runner_loop :: "'r throwing \<Rightarrow> nat \<Rightarrow> ('v, 'r) oneShot \<Rightarrow> ('v, 'r) oneShot" where
  "runner_loop body t s =
     (let i = nextIndex s;
          s1 = s\<lparr> nextIndex := i + 1 \<rparr>
      in if i \<ge> length (jobs s1) then set_runner t RReturned s1
         else
           (let s2 = s1\<lparr> executed := executed s1 @ [i] \<rparr>
            in case body (execute (jobs s2 ! i)) of
                 None \<Rightarrow> set_runner t (RAwaitJob i (time s2) 0) s2
               | Some reason \<Rightarrow>
                   runner_loop body t
                     (s2\<lparr> results := array_set (results s2) i
                                        (Rejected reason (properties (jobs s2 ! i))) \<rparr>)))"
  by pat_completeness auto

termination
  by (relation "measure (\<lambda>(body, t, s). length (jobs s) - nextIndex s)") auto

text \<open>The task resumes after \<open>await jobs[i].execute(...)\<close>: \<open>results[i]\<close> is assigned in
  the \<open>try\<close> or in the \<open>catch\<close>, the timer is cleared, the loop goes on.\<close>

definition runner_settled ::
  "'r throwing \<Rightarrow> nat \<Rightarrow> 'r + 'v \<Rightarrow> ('v, 'r) oneShot \<Rightarrow> ('v, 'r) oneShot" where
  "runner_settled body t res s =
     (case snd (runners s ! t) of
        RAwaitJob i startTime ticks \<Rightarrow>
          (let outcome = (case res of
                            Inr v \<Rightarrow> Fulfilled v (properties (jobs s ! i))
                          | Inl r \<Rightarrow> Rejected r (properties (jobs s ! i)));
               s1 = s\<lparr> results := array_set (results s) i outcome \<rparr>
           in runner_loop body t s1)
      | _ \<Rightarrow> s)"

definition spawn_runner :: "'r throwing \<Rightarrow> ('v, 'r) oneShot \<Rightarrow> nat \<Rightarrow> ('v, 'r) oneShot" where
  "spawn_runner body s idx =
     runner_loop body (length (runners s)) (s\<lparr> runners := runners s @ [(idx + 1, RRunning)] \<rparr>)"

text \<open>
  \<open>runJobs(jobs, concurrency, logger)\<close> up to \<open>await Promise.all(workers)\<close>: the check of
  \<open>concurrency\<close>, then \<open>Array(Math.min(concurrency, jobs.length))\<close>, then one worker per
  element, each run to its first suspension. A throw comes with the state it happens in.
\<close>

definition runJobs ::
  "'r throwing \<Rightarrow> job list \<Rightarrow> concurrencyArg \<Rightarrow> (thrown \<times> ('v, 'r) oneShot) + ('v, 'r) oneShot" where
  "runJobs body js c =
     (let s0 = \<lparr> jobs = js, results = [], nextIndex = 0, runners = [], time = 0, logged = [],
                 executed = [] \<rparr>;
          invalid = TemplateError ''Invalid concurrency: '' c ''. Must be a positive integer.''
      in if c = Null \<or> c = Undefined then Inl (invalid, s0)
         else
           (case less_eq_zero c of
              Inl e \<Rightarrow> Inl (e, s0)
            | Inr True \<Rightarrow> Inl (invalid, s0)
            | Inr False \<Rightarrow>
                (case to_number c of
                   Inl e \<Rightarrow> Inl (e, s0)
                 | Inr x \<Rightarrow>
                     (case array_length (math_min x (length js)) of
                        None \<Rightarrow> Inl (RangeError, s0)
                      | Some n \<Rightarrow> Inr (foldl (spawn_runner body) s0 [0 ..< n])))))"

definition runner_timers_allow :: "(nat \<times> rstate) list \<Rightarrow> nat \<Rightarrow> bool" where
  "runner_timers_allow ts newTime =
     list_all (\<lambda>tk. case snd tk of
                       RAwaitJob i startTime ticks \<Rightarrow> newTime \<le> due startTime ticks
                     | _ \<Rightarrow> True) ts"

definition runner_fire :: "nat \<Rightarrow> ('v, 'r) oneShot \<Rightarrow> ('v, 'r) oneShot" where
  "runner_fire t s =
     (case runners s ! t of
        (workerId, RAwaitJob i startTime ticks) \<Rightarrow>
          (if time s = due startTime ticks
           then (set_runner t (RAwaitJob i startTime (ticks + 1)) s)
                  \<lparr> logged := logged s
                       @ [watchdog_report (time s) startTime workerId (properties (jobs s ! i))] \<rparr>
           else s)
      | _ \<Rightarrow> s)"

text \<open>What can happen after the call suspends: a job's promise settles, a timer fires,
  time passes (never past a due timer).\<close>

datatype ('v, 'r) oneShotEvent =
    JobSettles nat "'r + 'v"
  | TimerFires nat
  | TimePasses nat

fun oneShot_step ::
  "'r throwing \<Rightarrow> ('v, 'r) oneShot \<Rightarrow> ('v, 'r) oneShotEvent \<Rightarrow> ('v, 'r) oneShot" where
  "oneShot_step body s (JobSettles t res) =
     (if t < length (runners s) then runner_settled body t res s else s)"
| "oneShot_step body s (TimerFires t) = (if t < length (runners s) then runner_fire t s else s)"
| "oneShot_step body s (TimePasses d) =
     (if runner_timers_allow (runners s) (time s + d) then s\<lparr> time := time s + d \<rparr> else s)"


text \<open>A call and what follows it: the error thrown by the call, with the state at the
  throw, or the state after the events.\<close>

definition runJobs_then ::
  "'r throwing \<Rightarrow> job list \<Rightarrow> concurrencyArg \<Rightarrow> ('v, 'r) oneShotEvent list
     \<Rightarrow> (thrown \<times> ('v, 'r) oneShot) + ('v, 'r) oneShot" where
  "runJobs_then body js c es =
     (case runJobs body js c of
        Inl e \<Rightarrow> Inl e
      | Inr s \<Rightarrow> Inr (foldl (oneShot_step body) s es))"

section \<open>Scenarios\<close>

text \<open>Two jobs, and a body for the first (handle 1) that submits the second to its own
  pool before it first suspends, as in
  \<^verbatim>\<open>execute: async () => { pool.enqueue(child); await ... }\<close>.\<close>

definition parent_job :: job where
  "parent_job = \<lparr> execute = 1, properties = [(''id'', VNum 1)] \<rparr>"

definition child_job :: job where
  "child_job = \<lparr> execute = 0, properties = [(''id'', VNum 2)] \<rparr>"

definition submits_child :: "('v, 'r) sync" where
  "submits_child x workerId p s =
     Suspends (if x = 1
               then (case enqueue (opaque (\<lambda>x. None)) child_job s of Inl e \<Rightarrow> s | Inr s' \<Rightarrow> s')
               else s)"

text \<open>Three jobs for \<open>runJobs\<close>, the third with an \<open>execute\<close> (handle 7) that throws instead
  of returning a promise; and the state of \<open>runJobs\<close> on them with concurrency 2, after the
  call and after both promises have settled, the second first.\<close>

definition job_a :: job where
  "job_a = \<lparr> execute = 0, properties = [(''id'', VNum 1)] \<rparr>"




definition never_throws :: "string throwing" where
  "never_throws x = None"



definition one_job_started :: "(string, string) oneShot" where
  "one_job_started =
     \<lparr> jobs = [job_a], results = [], nextIndex = 1,
       runners = [(1, RAwaitJob 0 0 0)], time = 0, logged = [], executed = [0] \<rparr>"

definition not_started :: "job list \<Rightarrow> (string, string) oneShot" where
  "not_started js =
     \<lparr> jobs = js, results = [], nextIndex = 0, runners = [], time = 0, logged = [],
       executed = [] \<rparr>"

section \<open>Invariants of the pool\<close>

fun job_of :: "wstate \<Rightarrow> jobWithId list" where
  "job_of (AwaitJob j resolve startTime ticks) = [j]"
| "job_of st = []"

definition executing :: "(nat \<times> wstate) list \<Rightarrow> jobWithId list" where
  "executing ts = concat (map (\<lambda>tk. job_of (snd tk)) ts)"

definition active_inv :: "('v, 'r) pool \<Rightarrow> bool" where
  "active_inv s = (activeJobs s = int (length (executing (tasks s))))"

definition pending_jobs :: "('v, 'r) pool \<Rightarrow> jobWithId list" where
  "pending_jobs s = queue s @ executing (tasks s)"

definition resolver_ok :: "wstate \<Rightarrow> bool" where
  "resolver_ok st = (case st of AwaitJob j resolve startTime ticks \<Rightarrow> resolve = Some (concurrentJobId j) | _ \<Rightarrow> True)"

definition jobs_inv :: "('v, 'r) pool \<Rightarrow> bool" where
  "jobs_inv s =
     (length (accepted s) = jobCounter s \<and>
      mset (map concurrentJobId (pending_jobs s)) + mset (map fst (delivered s)) = mset [0 ..< jobCounter s] \<and>
      (\<forall>j \<in> set (pending_jobs s).
          properties j = properties (accepted s ! concurrentJobId j) \<and>
          map_of (resolveMap s) (concurrentJobId j) = Some (concurrentJobId j)) \<and>
      (\<forall>tk \<in> set (tasks s). resolver_ok (snd tk)) \<and>
      (\<forall>d \<in> set (delivered s). result_properties (snd d) = properties (accepted s ! fst d)))"

definition all_returned :: "(nat \<times> wstate) list \<Rightarrow> bool" where
  "all_returned ts = list_all (\<lambda>tk. snd tk = Returned) ts"

definition suspended :: "wstate \<Rightarrow> bool" where
  "suspended st = (st \<noteq> Running \<and> st \<noteq> Threw)"

definition finisher_ok :: "('v, 'r) pool \<Rightarrow> finisher \<Rightarrow> bool" where
  "finisher_ok s f =
     (case f of
        FinPending ws \<Rightarrow> ws = [0 ..< length (tasks s)] \<or> (ws = [] \<and> all_returned (tasks s))
      | FinResolved \<Rightarrow> workers s = [] \<and> all_returned (tasks s)
      | FinRejected \<Rightarrow> False)"

definition life_inv :: "('v, 'r) pool \<Rightarrow> bool" where
  "life_inv s =
     ((tasks s = [] \<or> map fst (tasks s) = map Suc [0 ..< nat (concurrency s)]) \<and>
      (workers s = [0 ..< length (tasks s)] \<or> (workers s = [] \<and> all_returned (tasks s))) \<and>
      (\<forall>tk \<in> set (tasks s). suspended (snd tk) \<and>
           (snd tk = Returned \<longrightarrow> \<not> isAcceptingWork s \<and> queue s = [])) \<and>
      (finishers s \<noteq> [] \<longrightarrow> \<not> isAcceptingWork s) \<and>
      (\<forall>f \<in> set (finishers s). finisher_ok s f) \<and>
      (1 \<le> concurrency s \<longrightarrow> tasks s = [] \<longrightarrow> queue s = []))"

text \<open>While \<open>ensureWorkers\<close> has made \<open>k\<close> workers.\<close>

definition building :: "nat \<Rightarrow> ('v, 'r) pool \<Rightarrow> bool" where
  "building k s =
     (map fst (tasks s) = map Suc [0 ..< k] \<and> workers s = [0 ..< k] \<and>
      (\<forall>tk \<in> set (tasks s). suspended (snd tk) \<and> snd tk \<noteq> Returned) \<and>
      isAcceptingWork s \<and> finishers s = [])"

fun awaited :: "wstate \<Rightarrow> nat option" where
  "awaited (AwaitWork p) = Some p"
| "awaited st = None"

text \<open>A task is blocked when the promise it awaits is not resolved.\<close>

definition blocked :: "('v, 'r) pool \<Rightarrow> nat \<Rightarrow> bool" where
  "blocked s n = (case awaited (snd (tasks s ! n)) of Some p \<Rightarrow> \<not> signals s ! p | None \<Rightarrow> False)"

definition signal_core :: "('v, 'r) pool \<Rightarrow> bool" where
  "signal_core s =
     (resolveWorkAvailable s = workAvailablePromise s \<and>
      (\<forall>p. workAvailablePromise s = Some p \<longrightarrow>
           p < length (signals s) \<and> \<not> signals s ! p \<and>
           (\<exists>n < length (tasks s). snd (tasks s ! n) = AwaitWork p)) \<and>
      (\<forall>n < length (tasks s). \<forall>p. snd (tasks s ! n) = AwaitWork p \<longrightarrow>
           p < length (signals s) \<and> (\<not> signals s ! p \<longrightarrow> workAvailablePromise s = Some p)))"

definition no_lost_wakeup :: "('v, 'r) pool \<Rightarrow> bool" where
  "no_lost_wakeup s = (\<forall>n < length (tasks s). blocked s n \<longrightarrow> queue s = [] \<and> isAcceptingWork s)"

text \<open>The idle condition, as \<open>checkIfIdle\<close> and \<open>waitForIdle\<close> test it.\<close>

definition idle :: "('v, 'r) pool \<Rightarrow> bool" where
  "idle s = (activeJobs s = 0 \<and> length (queue s) = 0)"

definition waiter_inv :: "('v, 'r) pool \<Rightarrow> bool" where
  "waiter_inv s =
     ((idle s \<longrightarrow> waitingResolvers s = []) \<and>
      distinct (idleResolved s @ waitingResolvers s) \<and>
      set (idleResolved s @ waitingResolvers s) = {..< idleCalls s})"

definition timer_ok :: "nat \<Rightarrow> wstate \<Rightarrow> bool" where
  "timer_ok t st =
     (case st of
        AwaitJob j resolve startTime ticks \<Rightarrow> startTime + 60000 * ticks \<le> t \<and> t \<le> due startTime ticks
      | _ \<Rightarrow> True)"

definition timer_inv :: "('v, 'r) pool \<Rightarrow> bool" where
  "timer_inv s = (\<forall>n < length (tasks s). timer_ok (clock s) (snd (tasks s ! n)))"

definition busy :: "('v, 'r) pool \<Rightarrow> bool" where
  "busy s = (0 \<le> activeJobs s \<and> (queue s \<noteq> [] \<or> 0 < activeJobs s))"

subsection \<open>The worker, one job at a time\<close>

text \<open>
  For the proofs the worker's loop is cut at every job: \<open>worker_turn\<close> is one pass of the
  loop in which the call of \<open>execute\<close>, if one is made, returns a promise; \<open>settle_turn\<close> is
  the worker resuming after that promise settled, up to the end of its next pass; and
  \<open>drain\<close> settles, one after the other, the jobs whose call has thrown. The loop of
  the source, for job bodies that do not call the pool, is \<open>worker_turn\<close> followed by
  \<open>drain\<close> (lemma \<open>worker_loop_drain\<close>).
\<close>

definition worker_turn :: "nat \<Rightarrow> ('v, 'r) pool \<Rightarrow> ('v, 'r) pool" where
  "worker_turn t s =
     (if isAcceptingWork s \<or> queue s \<noteq> [] then
        (case queue s of
           [] \<Rightarrow> (if \<not> isAcceptingWork s then set_task t Returned s
                  else set_task t (AwaitWork (fst (waitForWorkAvailable s))) (snd (waitForWorkAvailable s)))
         | j # rest \<Rightarrow>
             set_task t (AwaitJob j (map_of (resolveMap s) (concurrentJobId j)) (clock s) 0)
               (s\<lparr> queue := rest, activeJobs := activeJobs s + 1 \<rparr>))
      else set_task t Returned s)"

definition settle_turn :: "nat \<Rightarrow> 'r + 'v \<Rightarrow> ('v, 'r) pool \<Rightarrow> ('v, 'r) pool" where
  "settle_turn t res s =
     (case snd (tasks s ! t) of
        AwaitJob j resolve startTime ticks \<Rightarrow>
          (case resolve of
             None \<Rightarrow> set_task t Threw (worker_finally j s)
           | Some p \<Rightarrow>
               worker_turn t
                 (worker_finally j
                    (s\<lparr> delivered := delivered s
                          @ [(p, case res of Inr v \<Rightarrow> Fulfilled v (properties j)
                                           | Inl r \<Rightarrow> Rejected r (properties j))] \<rparr>)))
      | _ \<Rightarrow> s)"

text \<open>The job that the task \<open>t\<close> has just called, when that call threw.\<close>

definition thrown_job :: "(nat \<Rightarrow> 'r option) \<Rightarrow> nat \<Rightarrow> ('v, 'r) pool \<Rightarrow> 'r option" where
  "thrown_job throws t s =
     (if t < length (tasks s)
      then (case snd (tasks s ! t) of
              AwaitJob j resolve startTime ticks \<Rightarrow> throws (execute j)
            | _ \<Rightarrow> None)
      else None)"

function drain :: "(nat \<Rightarrow> 'r option) \<Rightarrow> nat \<Rightarrow> ('v, 'r) pool \<Rightarrow> ('v, 'r) pool" where
  "drain throws t s =
     (case thrown_job throws t s of
        None \<Rightarrow> s
      | Some reason \<Rightarrow> drain throws t (settle_turn t (Inl reason) s))"
  by pat_completeness auto

termination
proof (relation "measure (\<lambda>(throws, t, s). 2 * length (queue s) + length (job_of (snd (tasks s ! t))))")
  show "wf (measure (\<lambda>(throws, t, s). 2 * length (queue s) + length (job_of (snd (tasks s ! t)))))"
    by simp
next
  fix throws :: "nat \<Rightarrow> 'r option" and t and s :: "('v, 'r) pool" and reason
  assume th: "thrown_job throws t s = Some reason"
  then have t: "t < length (tasks s)"
    by (simp add: thrown_job_def split: if_splits)
  then obtain j resolve startTime ticks where st: "snd (tasks s ! t) = AwaitJob j resolve startTime ticks"
    using th by (cases "snd (tasks s ! t)") (simp_all add: thrown_job_def)
  have "2 * length (queue (settle_turn t (Inl reason) s))
          + length (job_of (snd (tasks (settle_turn t (Inl reason) s) ! t)))
      < 2 * length (queue s) + length (job_of (snd (tasks s ! t)))"
  proof (cases resolve)
    case None
    then show ?thesis
      using st t by (simp add: settle_turn_def set_task_def worker_finally_def checkIfIdle_def Let_def)
  next
    case (Some p)
    then show ?thesis
      using st t
      by (cases "queue s")
        (simp_all add: settle_turn_def worker_turn_def set_task_def worker_finally_def checkIfIdle_def
          waitForWorkAvailable_def Let_def split: option.splits)
  qed
  then show "((throws, t, settle_turn t (Inl reason) s), (throws, t, s))
      \<in> measure (\<lambda>(throws, t, s). 2 * length (queue s) + length (job_of (snd (tasks s ! t))))"
    by simp
qed

subsection \<open>Invariants of runJobs\<close>

fun index_of :: "rstate \<Rightarrow> nat list" where
  "index_of (RAwaitJob i startTime ticks) = [i]"
| "index_of st = []"

text \<open>The indices being executed, and the indices of \<open>results\<close> that are not holes.\<close>

definition in_flight :: "(nat \<times> rstate) list \<Rightarrow> nat list" where
  "in_flight ts = concat (map (\<lambda>tk. index_of (snd tk)) ts)"




text \<open>One round of the worker's loop for a job whose \<open>execute\<close> throws.\<close>

definition throw_turn :: "'r \<Rightarrow> ('v, 'r) oneShot \<Rightarrow> ('v, 'r) oneShot" where
  "throw_turn reason s =
     s\<lparr> nextIndex := nextIndex s + 1,
        executed := executed s @ [nextIndex s],
        results := array_set (results s) (nextIndex s)
                     (Rejected reason (properties (jobs s ! nextIndex s))) \<rparr>"

text \<open>Every claimed job whose \<open>execute\<close> throws has its rejection in \<open>results\<close>.\<close>

definition thrown_inv :: "'r throwing \<Rightarrow> ('v, 'r) oneShot \<Rightarrow> bool" where
  "thrown_inv body s =
     (\<forall>i < min (nextIndex s) (length (jobs s)). \<forall>r. body (execute (jobs s ! i)) = Some r \<longrightarrow>
        i < length (results s) \<and> results s ! i = Some (Rejected r (properties (jobs s ! i))))"

section \<open>Lemmas about the pool\<close>

lemma run_snoc: "run sync c (es @ [e]) = step sync (run sync c es) e"
  by (simp add: run_def)

lemma run_induct [case_names init step]:
  assumes "P (newPool c)" and "\<And>s e. P s \<Longrightarrow> P (step sync s e)"
  shows "P (run sync c es)"
proof (induction es rule: rev_induct)
  case Nil
  show ?case using assms(1) by (simp add: run_def)
next
  case (snoc e es)
  then show ?case using assms(2) by (simp add: run_snoc)
qed

lemma executing_append: "executing (xs @ ys) = executing xs @ executing ys"
  by (simp add: executing_def)

lemma executing_Nil: "executing [] = []"
  by (simp add: executing_def)

lemma executing_Cons: "executing ((w, st) # ts) = job_of st @ executing ts"
  by (simp add: executing_def)

lemma executing_update:
  "t < length ts \<Longrightarrow>
   executing (ts[t := (w, st)]) = executing (take t ts) @ job_of st @ executing (drop (Suc t) ts)"
  by (simp add: upd_conv_take_nth_drop executing_append executing_Cons)

lemma executing_split:
  "t < length ts \<Longrightarrow>
   executing ts = executing (take t ts) @ job_of (snd (ts ! t)) @ executing (drop (Suc t) ts)"
  using executing_update [of t ts "fst (ts ! t)" "snd (ts ! t)"] by simp

lemma mset_executing_update:
  assumes "t < length ts"
  shows "mset (executing (ts[t := (w, st)])) + mset (job_of (snd (ts ! t))) = mset (executing ts) + mset (job_of st)"
proof -
  have "executing ts = executing (take t ts) @ job_of (snd (ts ! t)) @ executing (drop (Suc t) ts)"
    using assms by (rule executing_split)
  moreover have "executing (ts[t := (w, st)]) = executing (take t ts) @ job_of st @ executing (drop (Suc t) ts)"
    using assms by (rule executing_update)
  ultimately show ?thesis by simp
qed

lemma executing_update_same:
  assumes "t < length ts" and "job_of (snd (ts ! t)) = job_of st"
  shows "executing (ts[t := (w, st)]) = executing ts"
proof -
  have "executing ts = executing (take t ts) @ job_of (snd (ts ! t)) @ executing (drop (Suc t) ts)"
    using assms(1) by (rule executing_split)
  moreover have "executing (ts[t := (w, st)]) = executing (take t ts) @ job_of st @ executing (drop (Suc t) ts)"
    using assms(1) by (rule executing_update)
  ultimately show ?thesis using assms(2) by simp
qed

lemma set_task_simps [simp]:
  "tasks (set_task t st s) = (tasks s)[t := (fst (tasks s ! t), st)]"
  "queue (set_task t st s) = queue s"
  "activeJobs (set_task t st s) = activeJobs s"
  "resolveMap (set_task t st s) = resolveMap s"
  "delivered (set_task t st s) = delivered s"
  "accepted (set_task t st s) = accepted s"
  "jobCounter (set_task t st s) = jobCounter s"
  "isAcceptingWork (set_task t st s) = isAcceptingWork s"
  "workers (set_task t st s) = workers s"
  "signals (set_task t st s) = signals s"
  "workAvailablePromise (set_task t st s) = workAvailablePromise s"
  "resolveWorkAvailable (set_task t st s) = resolveWorkAvailable s"
  "clock (set_task t st s) = clock s"
  "finishers (set_task t st s) = finishers s"
  "concurrency (set_task t st s) = concurrency s"
  "warnings (set_task t st s) = warnings s"
  "idleCalls (set_task t st s) = idleCalls s"
  "idleResolved (set_task t st s) = idleResolved s"
  "idleChecks (set_task t st s) = idleChecks s"
  "waitingResolvers (set_task t st s) = waitingResolvers s"
  by (simp_all add: set_task_def)

lemma waitForWorkAvailable_simps [simp]:
  "tasks (snd (waitForWorkAvailable s)) = tasks s"
  "queue (snd (waitForWorkAvailable s)) = queue s"
  "activeJobs (snd (waitForWorkAvailable s)) = activeJobs s"
  "resolveMap (snd (waitForWorkAvailable s)) = resolveMap s"
  "delivered (snd (waitForWorkAvailable s)) = delivered s"
  "accepted (snd (waitForWorkAvailable s)) = accepted s"
  "jobCounter (snd (waitForWorkAvailable s)) = jobCounter s"
  "isAcceptingWork (snd (waitForWorkAvailable s)) = isAcceptingWork s"
  "workers (snd (waitForWorkAvailable s)) = workers s"
  "clock (snd (waitForWorkAvailable s)) = clock s"
  "finishers (snd (waitForWorkAvailable s)) = finishers s"
  "concurrency (snd (waitForWorkAvailable s)) = concurrency s"
  "warnings (snd (waitForWorkAvailable s)) = warnings s"
  "idleCalls (snd (waitForWorkAvailable s)) = idleCalls s"
  "idleResolved (snd (waitForWorkAvailable s)) = idleResolved s"
  "idleChecks (snd (waitForWorkAvailable s)) = idleChecks s"
  "waitingResolvers (snd (waitForWorkAvailable s)) = waitingResolvers s"
  by (simp_all add: waitForWorkAvailable_def Let_def split: option.splits)

lemma notifyWorkersOfNewWork_simps [simp]:
  "tasks (notifyWorkersOfNewWork s) = tasks s"
  "queue (notifyWorkersOfNewWork s) = queue s"
  "activeJobs (notifyWorkersOfNewWork s) = activeJobs s"
  "resolveMap (notifyWorkersOfNewWork s) = resolveMap s"
  "delivered (notifyWorkersOfNewWork s) = delivered s"
  "accepted (notifyWorkersOfNewWork s) = accepted s"
  "jobCounter (notifyWorkersOfNewWork s) = jobCounter s"
  "isAcceptingWork (notifyWorkersOfNewWork s) = isAcceptingWork s"
  "workers (notifyWorkersOfNewWork s) = workers s"
  "clock (notifyWorkersOfNewWork s) = clock s"
  "finishers (notifyWorkersOfNewWork s) = finishers s"
  "concurrency (notifyWorkersOfNewWork s) = concurrency s"
  "warnings (notifyWorkersOfNewWork s) = warnings s"
  "idleCalls (notifyWorkersOfNewWork s) = idleCalls s"
  "idleResolved (notifyWorkersOfNewWork s) = idleResolved s"
  "idleChecks (notifyWorkersOfNewWork s) = idleChecks s"
  "waitingResolvers (notifyWorkersOfNewWork s) = waitingResolvers s"
  by (simp_all add: notifyWorkersOfNewWork_def split: option.splits)

lemma checkIfIdle_simps [simp]:
  "tasks (checkIfIdle s) = tasks s"
  "queue (checkIfIdle s) = queue s"
  "activeJobs (checkIfIdle s) = activeJobs s"
  "resolveMap (checkIfIdle s) = resolveMap s"
  "delivered (checkIfIdle s) = delivered s"
  "accepted (checkIfIdle s) = accepted s"
  "jobCounter (checkIfIdle s) = jobCounter s"
  "isAcceptingWork (checkIfIdle s) = isAcceptingWork s"
  "workers (checkIfIdle s) = workers s"
  "signals (checkIfIdle s) = signals s"
  "workAvailablePromise (checkIfIdle s) = workAvailablePromise s"
  "resolveWorkAvailable (checkIfIdle s) = resolveWorkAvailable s"
  "clock (checkIfIdle s) = clock s"
  "finishers (checkIfIdle s) = finishers s"
  "concurrency (checkIfIdle s) = concurrency s"
  "warnings (checkIfIdle s) = warnings s"
  "idleCalls (checkIfIdle s) = idleCalls s"
  "idleChecks (checkIfIdle s) = idleChecks s + 1"
  by (simp_all add: checkIfIdle_def Let_def)

lemma worker_finally_simps [simp]:
  "tasks (worker_finally j s) = tasks s"
  "queue (worker_finally j s) = queue s"
  "activeJobs (worker_finally j s) = activeJobs s - 1"
  "resolveMap (worker_finally j s) = AList.delete (concurrentJobId j) (resolveMap s)"
  "delivered (worker_finally j s) = delivered s"
  "accepted (worker_finally j s) = accepted s"
  "jobCounter (worker_finally j s) = jobCounter s"
  "isAcceptingWork (worker_finally j s) = isAcceptingWork s"
  "workers (worker_finally j s) = workers s"
  "signals (worker_finally j s) = signals s"
  "workAvailablePromise (worker_finally j s) = workAvailablePromise s"
  "resolveWorkAvailable (worker_finally j s) = resolveWorkAvailable s"
  "clock (worker_finally j s) = clock s"
  "finishers (worker_finally j s) = finishers s"
  "concurrency (worker_finally j s) = concurrency s"
  "warnings (worker_finally j s) = warnings s"
  "idleCalls (worker_finally j s) = idleCalls s"
  "idleChecks (worker_finally j s) = idleChecks s + 1"
  by (simp_all add: worker_finally_def Let_def)

lemma length_executing_update:
  assumes "t < length ts"
  shows "int (length (executing (ts[t := (w, st)]))) + int (length (job_of (snd (ts ! t))))
      = int (length (executing ts)) + int (length (job_of st))"
proof -
  have "size (mset (executing (ts[t := (w, st)])) + mset (job_of (snd (ts ! t))))
      = size (mset (executing ts) + mset (job_of st))"
    using mset_executing_update [OF assms] by simp
  then have "length (executing (ts[t := (w, st)])) + length (job_of (snd (ts ! t)))
      = length (executing ts) + length (job_of st)"
    by simp
  then show ?thesis by linarith
qed

lemma worker_turn_active:
  assumes "t < length (tasks s)"
    and "activeJobs s + int (length (job_of (snd (tasks s ! t)))) = int (length (executing (tasks s)))"
  shows "active_inv (worker_turn t s)"
proof (cases "queue s")
  case Nil
  then show ?thesis
    using assms(2) length_executing_update [OF assms(1), of "fst (tasks s ! t)" Returned]
      length_executing_update [OF assms(1), of "fst (tasks s ! t)" "AwaitWork (fst (waitForWorkAvailable s))"]
    by (simp add: worker_turn_def active_inv_def)
next
  case (Cons j rest)
  then show ?thesis
    using assms(2) length_executing_update [OF assms(1), of "fst (tasks s ! t)"
        "AwaitJob j (map_of (resolveMap s) (concurrentJobId j)) (clock s) 0"]
    by (simp add: worker_turn_def active_inv_def)
qed

lemma set_task_twice: "set_task t st (set_task t st' s) = set_task t st s"
proof (cases "t < length (tasks s)")
  case True
  then show ?thesis by (simp add: set_task_def)
next
  case False
  then show ?thesis by (simp add: set_task_def list_update_beyond)
qed

lemma waitForWorkAvailable_set_task:
  "fst (waitForWorkAvailable (set_task t st s)) = fst (waitForWorkAvailable s)"
  "snd (waitForWorkAvailable (set_task t st s)) = set_task t st (snd (waitForWorkAvailable s))"
  by (simp_all add: waitForWorkAvailable_def set_task_def Let_def split: option.splits)

lemma set_task_queue_update:
  "(set_task t st s)\<lparr> queue := q, activeJobs := a \<rparr> = set_task t st (s\<lparr> queue := q, activeJobs := a \<rparr>)"
  by (simp add: set_task_def)

lemma worker_turn_reset: "worker_turn t (set_task t st s) = worker_turn t s"
  by (simp add: worker_turn_def waitForWorkAvailable_set_task set_task_queue_update set_task_twice
      split: list.splits)

lemma worker_turn_frame [simp]:
  "delivered (worker_turn t s) = delivered s"
  "accepted (worker_turn t s) = accepted s"
  "jobCounter (worker_turn t s) = jobCounter s"
  "resolveMap (worker_turn t s) = resolveMap s"
  "isAcceptingWork (worker_turn t s) = isAcceptingWork s"
  "workers (worker_turn t s) = workers s"
  "clock (worker_turn t s) = clock s"
  "finishers (worker_turn t s) = finishers s"
  "concurrency (worker_turn t s) = concurrency s"
  "warnings (worker_turn t s) = warnings s"
  "idleCalls (worker_turn t s) = idleCalls s"
  "idleResolved (worker_turn t s) = idleResolved s"
  "idleChecks (worker_turn t s) = idleChecks s"
  "waitingResolvers (worker_turn t s) = waitingResolvers s"
  "length (tasks (worker_turn t s)) = length (tasks s)"
  by (simp_all add: worker_turn_def split: list.splits)

lemma worker_turn_pending:
  assumes "t < length (tasks s)" and "job_of (snd (tasks s ! t)) = []"
  shows "mset (pending_jobs (worker_turn t s)) = mset (pending_jobs s)"
proof (cases "queue s")
  case Nil
  then show ?thesis
    using assms by (simp add: worker_turn_def pending_jobs_def executing_update_same)
next
  case (Cons j rest)
  then show ?thesis
    using assms mset_executing_update [OF assms(1), of "fst (tasks s ! t)"
        "AwaitJob j (map_of (resolveMap s) (concurrentJobId j)) (clock s) 0"]
    by (simp add: worker_turn_def pending_jobs_def)
qed

lemma worker_turn_tasks:
  "\<exists>st. tasks (worker_turn t s) = (tasks s)[t := (fst (tasks s ! t), st)] \<and>
     (case st of AwaitJob j resolve startTime ticks \<Rightarrow>
        j \<in> set (queue s) \<and> resolve = map_of (resolveMap s) (concurrentJobId j) \<and> startTime = clock s \<and> ticks = 0
      | Running \<Rightarrow> False | Threw \<Rightarrow> False | _ \<Rightarrow> True)"
  by (cases "queue s") (auto simp: worker_turn_def)

lemma worker_turn_resolver:
  assumes "jobs_inv s"
  shows "\<forall>tk \<in> set (tasks (worker_turn t s)). resolver_ok (snd tk)"
proof -
  have old: "\<forall>tk \<in> set (tasks s). resolver_ok (snd tk)"
    using assms by (simp add: jobs_inv_def)
  obtain st where tk: "tasks (worker_turn t s) = (tasks s)[t := (fst (tasks s ! t), st)]"
    and st: "case st of AwaitJob j resolve startTime ticks \<Rightarrow>
        j \<in> set (queue s) \<and> resolve = map_of (resolveMap s) (concurrentJobId j) \<and> startTime = clock s \<and> ticks = 0
      | Running \<Rightarrow> False | Threw \<Rightarrow> False | _ \<Rightarrow> True"
    using worker_turn_tasks [of t s] by blast
  have "resolver_ok st"
  proof (cases st)
    case (AwaitJob j resolve startTime ticks)
    then have "j \<in> set (pending_jobs s)" and "resolve = map_of (resolveMap s) (concurrentJobId j)"
      using st by (simp_all add: pending_jobs_def)
    then show ?thesis
      using assms AwaitJob by (simp add: jobs_inv_def resolver_ok_def)
  qed (simp_all add: resolver_ok_def)
  then show ?thesis
    using old set_update_subset_insert [of "tasks s" t "(fst (tasks s ! t), st)"] tk by auto
qed

lemma worker_turn_jobs_inv:
  assumes "jobs_inv s" and "t < length (tasks s)" and "job_of (snd (tasks s ! t)) = []"
  shows "jobs_inv (worker_turn t s)"
proof -
  have m: "mset (pending_jobs (worker_turn t s)) = mset (pending_jobs s)"
    using assms(2,3) by (rule worker_turn_pending)
  then have st: "set (pending_jobs (worker_turn t s)) = set (pending_jobs s)"
    by (rule mset_eq_setD)
  have im: "mset (map concurrentJobId (pending_jobs (worker_turn t s)))
      = mset (map concurrentJobId (pending_jobs s))"
    using m by (metis mset_map)
  show ?thesis
    using assms(1) worker_turn_resolver [OF assms(1), of t] st im
    by (simp add: jobs_inv_def)
qed

lemma jobs_inv_cong:
  assumes "accepted s' = accepted s" "jobCounter s' = jobCounter s" "queue s' = queue s"
    "tasks s' = tasks s" "delivered s' = delivered s" "resolveMap s' = resolveMap s"
  shows "jobs_inv s' = jobs_inv s"
  using assms by (simp add: jobs_inv_def pending_jobs_def)

lemma active_inv_cong:
  assumes "activeJobs s' = activeJobs s" "tasks s' = tasks s"
  shows "active_inv s' = active_inv s"
  using assms by (simp add: active_inv_def)

lemma jobs_inv_frame [simp]:
  "jobs_inv (s\<lparr> workers := w \<rparr>) = jobs_inv s"
  "jobs_inv (notifyWorkersOfNewWork s) = jobs_inv s"
  "jobs_inv (s\<lparr> clock := c \<rparr>) = jobs_inv s"
  by (simp_all add: jobs_inv_def pending_jobs_def)

lemma active_inv_frame [simp]:
  "active_inv (s\<lparr> workers := w \<rparr>) = active_inv s"
  "active_inv (notifyWorkersOfNewWork s) = active_inv s"
  "active_inv (s\<lparr> clock := c \<rparr>) = active_inv s"
  by (simp_all add: active_inv_def)

lemma foldl_preserves:
  assumes "P s" and "\<And>s x. P s \<Longrightarrow> P (f s x)"
  shows "P (foldl f s xs)"
  using assms(1) by (induction xs arbitrary: s) (simp_all add: assms(2))

lemma jobs_inv_ids_bound:
  assumes "jobs_inv s"
  shows "\<forall>j \<in> set (pending_jobs s). concurrentJobId j < jobCounter s"
    and "\<forall>d \<in> set (delivered s). fst d < jobCounter s"
proof -
  have eq: "mset (map concurrentJobId (pending_jobs s)) + mset (map fst (delivered s)) = mset [0 ..< jobCounter s]"
    using assms by (simp add: jobs_inv_def)
  have "set (map concurrentJobId (pending_jobs s)) \<union> set (map fst (delivered s)) = set [0 ..< jobCounter s]"
    using eq [THEN arg_cong, of set_mset] by simp
  then have sub: "concurrentJobId ` set (pending_jobs s) \<union> fst ` set (delivered s) \<subseteq> {..< jobCounter s}"
    by auto
  show "\<forall>j \<in> set (pending_jobs s). concurrentJobId j < jobCounter s"
    using sub by auto
  show "\<forall>d \<in> set (delivered s). fst d < jobCounter s"
    using sub by auto
qed

lemma enqueue_push_jobs_inv:
  assumes "jobs_inv s"
  shows "jobs_inv (s\<lparr> jobCounter := jobCounter s + 1, accepted := accepted s @ [j],
            resolveMap := AList.update (jobCounter s) (jobCounter s) (resolveMap s),
            queue := queue s @ [\<lparr> execute = execute j, properties = properties j,
                                  concurrentJobId = jobCounter s \<rparr>] \<rparr>)"
proof -
  have len: "length (accepted s) = jobCounter s"
    using assms by (simp add: jobs_inv_def)
  have b1: "\<forall>j \<in> set (pending_jobs s). concurrentJobId j < jobCounter s"
    and b2: "\<forall>d \<in> set (delivered s). fst d < jobCounter s"
    using jobs_inv_ids_bound [OF assms] by blast+
  show ?thesis
    using assms len b1 b2
    by (auto simp: jobs_inv_def pending_jobs_def nth_append update_conv')
qed

lemma finished_jobs_inv:
  assumes inv: "jobs_inv s" and t: "t < length (tasks s)"
    and st: "snd (tasks s ! t) = AwaitJob j resolve startTime ticks"
    and out: "result_properties outcome = properties j"
  shows "jobs_inv (set_task t Running
           (worker_finally j (s\<lparr> delivered := delivered s @ [(concurrentJobId j, outcome)] \<rparr>)))"
proof -
  let ?s' = "set_task t Running
           (worker_finally j (s\<lparr> delivered := delivered s @ [(concurrentJobId j, outcome)] \<rparr>))"
  have ex: "mset (executing (tasks ?s')) + {#j#} = mset (executing (tasks s))"
    using mset_executing_update [OF t, of "fst (tasks s ! t)" Running] st by simp
  then have pend: "mset (pending_jobs ?s') + {#j#} = mset (pending_jobs s)"
    by (simp add: pending_jobs_def)
  have ids: "mset (map concurrentJobId (pending_jobs ?s')) + {#concurrentJobId j#}
      = mset (map concurrentJobId (pending_jobs s))"
    using pend [THEN arg_cong, of "image_mset concurrentJobId"] by simp
  have eq: "mset (map concurrentJobId (pending_jobs s)) + mset (map fst (delivered s)) = mset [0 ..< jobCounter s]"
    using inv by (simp add: jobs_inv_def)
  have sub: "set (pending_jobs ?s') \<subseteq> set (pending_jobs s)"
    using pend [THEN arg_cong, of set_mset] by auto
  have jin: "j \<in> set (pending_jobs s)"
    using pend [THEN arg_cong, of set_mset] by auto
  have "distinct (map concurrentJobId (pending_jobs s) @ map fst (delivered s)) = distinct [0 ..< jobCounter s]"
    by (rule mset_eq_imp_distinct_iff) (use eq in simp)
  then have d1: "distinct (map concurrentJobId (pending_jobs s))"
    by simp
  have "distinct (map concurrentJobId (pending_jobs ?s') @ [concurrentJobId j])
      = distinct (map concurrentJobId (pending_jobs s))"
    by (rule mset_eq_imp_distinct_iff) (use ids in simp)
  then have "concurrentJobId j \<notin> set (map concurrentJobId (pending_jobs ?s'))"
    using d1 by simp
  then have fresh: "\<forall>j' \<in> set (pending_jobs ?s'). concurrentJobId j' \<noteq> concurrentJobId j"
    by (metis image_eqI set_map)
  have c2: "mset (map concurrentJobId (pending_jobs ?s')) + mset (map fst (delivered ?s')) = mset [0 ..< jobCounter ?s']"
    using eq unfolding ids [symmetric] by simp
  have c3: "\<forall>j' \<in> set (pending_jobs ?s').
          properties j' = properties (accepted ?s' ! concurrentJobId j') \<and>
          map_of (resolveMap ?s') (concurrentJobId j') = Some (concurrentJobId j')"
    using inv sub fresh by (auto simp: jobs_inv_def delete_conv')
  have c4: "\<forall>tk \<in> set (tasks ?s'). resolver_ok (snd tk)"
    using inv set_update_subset_insert [of "tasks s" t "(fst (tasks s ! t), Running)"]
    by (auto simp: jobs_inv_def resolver_ok_def)
  have c5: "\<forall>d \<in> set (delivered ?s'). result_properties (snd d) = properties (accepted ?s' ! fst d)"
    using inv jin out by (auto simp: jobs_inv_def)
  have c1: "length (accepted ?s') = jobCounter ?s'"
    using inv by (simp add: jobs_inv_def)
  show ?thesis
    unfolding jobs_inv_def using c1 c2 c3 c4 c5 by blast
qed

lemma settle_turn_jobs_inv:
  assumes inv: "jobs_inv s" and t: "t < length (tasks s)"
  shows "jobs_inv (settle_turn t res s)"
proof (cases "snd (tasks s ! t)")
  case (AwaitJob j resolve startTime ticks)
  have "tasks s ! t \<in> set (tasks s)" using t by simp
  then have "resolver_ok (snd (tasks s ! t))" using inv by (simp add: jobs_inv_def)
  then have r: "resolve = Some (concurrentJobId j)" using AwaitJob by (simp add: resolver_ok_def)
  define outcome :: "('a, 'b) jobResult" where
    "outcome = (case res of Inr v \<Rightarrow> Fulfilled v (properties j) | Inl r \<Rightarrow> Rejected r (properties j))"
  have out: "result_properties outcome = properties j"
    by (simp add: outcome_def split: sum.splits)
  let ?s1 = "worker_finally j (s\<lparr> delivered := delivered s @ [(concurrentJobId j, outcome)] \<rparr>)"
  have "jobs_inv (worker_turn t (set_task t Running ?s1))"
    using finished_jobs_inv [OF inv t AwaitJob out] t
    by (intro worker_turn_jobs_inv) simp_all
  then have "jobs_inv (worker_turn t ?s1)"
    by (simp add: worker_turn_reset)
  then show ?thesis
    using AwaitJob r by (simp add: settle_turn_def outcome_def Let_def)
qed (simp_all add: settle_turn_def inv)

lemma settle_turn_active_inv:
  assumes inv: "active_inv s" and jinv: "jobs_inv s" and t: "t < length (tasks s)"
  shows "active_inv (settle_turn t res s)"
proof (cases "snd (tasks s ! t)")
  case (AwaitJob j resolve startTime ticks)
  have "tasks s ! t \<in> set (tasks s)" using t by simp
  then have "resolver_ok (snd (tasks s ! t))" using jinv by (simp add: jobs_inv_def)
  then have r: "resolve = Some (concurrentJobId j)" using AwaitJob by (simp add: resolver_ok_def)
  show ?thesis
    using AwaitJob r inv t
    by (simp add: settle_turn_def Let_def) (rule worker_turn_active, simp_all add: active_inv_def)
qed (simp_all add: settle_turn_def inv)

lemma fire_executing:
  "t < length (tasks s) \<Longrightarrow> executing (tasks (fire t s)) = executing (tasks s)"
  by (cases "tasks s ! t"; cases "snd (tasks s ! t)")
     (simp_all add: fire_def executing_update_same split: prod.splits wstate.splits)

lemma fire_frame [simp]:
  "queue (fire t s) = queue s"
  "activeJobs (fire t s) = activeJobs s"
  "resolveMap (fire t s) = resolveMap s"
  "delivered (fire t s) = delivered s"
  "accepted (fire t s) = accepted s"
  "jobCounter (fire t s) = jobCounter s"
  "isAcceptingWork (fire t s) = isAcceptingWork s"
  "workers (fire t s) = workers s"
  "signals (fire t s) = signals s"
  "workAvailablePromise (fire t s) = workAvailablePromise s"
  "resolveWorkAvailable (fire t s) = resolveWorkAvailable s"
  "clock (fire t s) = clock s"
  "finishers (fire t s) = finishers s"
  "concurrency (fire t s) = concurrency s"
  "idleCalls (fire t s) = idleCalls s"
  "idleResolved (fire t s) = idleResolved s"
  "idleChecks (fire t s) = idleChecks s"
  "waitingResolvers (fire t s) = waitingResolvers s"
  "length (tasks (fire t s)) = length (tasks s)"
  by (simp_all add: fire_def split: prod.splits wstate.splits)

lemma fire_tasks:
  "tasks (fire t s) = tasks s \<or>
   (\<exists>w j resolve startTime ticks. tasks s ! t = (w, AwaitJob j resolve startTime ticks) \<and>
      clock s = due startTime ticks \<and>
      tasks (fire t s) = (tasks s)[t := (w, AwaitJob j resolve startTime (ticks + 1))] \<and>
      warnings (fire t s) = warnings s @ [watchdog_report (clock s) startTime w (properties j)])"
  by (cases "tasks s ! t"; cases "snd (tasks s ! t)") (simp_all add: fire_def)

lemma fire_resolver:
  assumes "\<forall>tk \<in> set (tasks s). resolver_ok (snd tk)" and "t < length (tasks s)"
  shows "\<forall>tk \<in> set (tasks (fire t s)). resolver_ok (snd tk)"
proof -
  consider "tasks (fire t s) = tasks s"
    | w j resolve startTime ticks where "tasks s ! t = (w, AwaitJob j resolve startTime ticks)"
      and "tasks (fire t s) = (tasks s)[t := (w, AwaitJob j resolve startTime (ticks + 1))]"
    using fire_tasks [of t s] by blast
  then show ?thesis
  proof cases
    case 1
    then show ?thesis using assms(1) by simp
  next
    case 2
    have "tasks s ! t \<in> set (tasks s)" using assms(2) by simp
    then have "resolver_ok (AwaitJob j resolve startTime ticks)"
      using assms(1) 2(1) by force
    then have ok: "resolver_ok (snd (w, AwaitJob j resolve startTime (ticks + 1)))"
      by (simp add: resolver_ok_def)
    show ?thesis
      unfolding 2(2)
      using assms(1) ok set_update_subset_insert [of "tasks s" t "(w, AwaitJob j resolve startTime (ticks + 1))"]
      by blast
  qed
qed

lemma fire_jobs_inv:
  assumes "jobs_inv s" and "t < length (tasks s)"
  shows "jobs_inv (fire t s)"
  using assms fire_resolver [of s t] fire_executing [of t s]
  by (simp add: jobs_inv_def pending_jobs_def)

lemma fire_active_inv:
  assumes "active_inv s" and "t < length (tasks s)"
  shows "active_inv (fire t s)"
  using assms fire_executing [of t s] by (simp add: active_inv_def)

lemma waitForIdle_frame [simp]:
  "tasks (waitForIdle s) = tasks s"
  "queue (waitForIdle s) = queue s"
  "activeJobs (waitForIdle s) = activeJobs s"
  "resolveMap (waitForIdle s) = resolveMap s"
  "delivered (waitForIdle s) = delivered s"
  "accepted (waitForIdle s) = accepted s"
  "jobCounter (waitForIdle s) = jobCounter s"
  "isAcceptingWork (waitForIdle s) = isAcceptingWork s"
  "workers (waitForIdle s) = workers s"
  "signals (waitForIdle s) = signals s"
  "workAvailablePromise (waitForIdle s) = workAvailablePromise s"
  "resolveWorkAvailable (waitForIdle s) = resolveWorkAvailable s"
  "clock (waitForIdle s) = clock s"
  "finishers (waitForIdle s) = finishers s"
  "concurrency (waitForIdle s) = concurrency s"
  "warnings (waitForIdle s) = warnings s"
  "idleCalls (waitForIdle s) = idleCalls s + 1"
  "idleChecks (waitForIdle s) = idleChecks s"
  by (simp_all add: waitForIdle_def Let_def)

lemma finishAllWork_frame [simp]:
  "tasks (finishAllWork s) = tasks s"
  "queue (finishAllWork s) = queue s"
  "activeJobs (finishAllWork s) = activeJobs s"
  "resolveMap (finishAllWork s) = resolveMap s"
  "delivered (finishAllWork s) = delivered s"
  "accepted (finishAllWork s) = accepted s"
  "jobCounter (finishAllWork s) = jobCounter s"
  "isAcceptingWork (finishAllWork s) = False"
  "workers (finishAllWork s) = workers s"
  "clock (finishAllWork s) = clock s"
  "concurrency (finishAllWork s) = concurrency s"
  "warnings (finishAllWork s) = warnings s"
  "idleCalls (finishAllWork s) = idleCalls s"
  "idleResolved (finishAllWork s) = idleResolved s"
  "idleChecks (finishAllWork s) = idleChecks s"
  "waitingResolvers (finishAllWork s) = waitingResolvers s"
  "finishers (finishAllWork s) = finishers s @ [FinPending (workers s)]"
  by (simp_all add: finishAllWork_def Let_def)

lemma finishAllWork_resume_frame [simp]:
  "tasks (finishAllWork_resume k s) = tasks s"
  "queue (finishAllWork_resume k s) = queue s"
  "activeJobs (finishAllWork_resume k s) = activeJobs s"
  "resolveMap (finishAllWork_resume k s) = resolveMap s"
  "delivered (finishAllWork_resume k s) = delivered s"
  "accepted (finishAllWork_resume k s) = accepted s"
  "jobCounter (finishAllWork_resume k s) = jobCounter s"
  "isAcceptingWork (finishAllWork_resume k s) = isAcceptingWork s"
  "signals (finishAllWork_resume k s) = signals s"
  "workAvailablePromise (finishAllWork_resume k s) = workAvailablePromise s"
  "resolveWorkAvailable (finishAllWork_resume k s) = resolveWorkAvailable s"
  "clock (finishAllWork_resume k s) = clock s"
  "concurrency (finishAllWork_resume k s) = concurrency s"
  "warnings (finishAllWork_resume k s) = warnings s"
  "idleCalls (finishAllWork_resume k s) = idleCalls s"
  "idleResolved (finishAllWork_resume k s) = idleResolved s"
  "idleChecks (finishAllWork_resume k s) = idleChecks s"
  "waitingResolvers (finishAllWork_resume k s) = waitingResolvers s"
  by (simp_all add: finishAllWork_resume_def split: finisher.splits)

lemma worker_turn_nth:
  "t' \<noteq> t \<Longrightarrow> tasks (worker_turn t s) ! t' = tasks s ! t'"
  by (cases "queue s") (simp_all add: worker_turn_def)

lemma worker_turn_fst:
  "t < length (tasks s) \<Longrightarrow> map fst (tasks (worker_turn t s)) = map fst (tasks s)"
  by (cases "queue s") (simp_all add: worker_turn_def map_update list_update_same_conv)

lemma worker_turn_new_state:
  assumes "t < length (tasks s)"
  shows "suspended (snd (tasks (worker_turn t s) ! t)) \<and>
         (snd (tasks (worker_turn t s) ! t) = Returned \<longrightarrow> \<not> isAcceptingWork s \<and> queue s = [])"
  using assms by (cases "queue s") (auto simp: worker_turn_def suspended_def)

lemma worker_turn_queue:
  "queue (worker_turn t s) = tl (queue s)"
  by (cases "queue s") (simp_all add: worker_turn_def)

lemma worker_turn_set_tasks:
  assumes "t < length (tasks s)"
  shows "set (tasks (worker_turn t s)) \<subseteq> insert (tasks (worker_turn t s) ! t) (set (tasks s))"
proof -
  obtain st where "tasks (worker_turn t s) = (tasks s)[t := (fst (tasks s ! t), st)]"
    using worker_turn_tasks [of t s] by blast
  then show ?thesis
    using set_update_subset_insert [of "tasks s" t "(fst (tasks s ! t), st)"] assms by simp
qed

lemma all_returned_nth:
  "all_returned ts \<Longrightarrow> t < length ts \<Longrightarrow> snd (ts ! t) = Returned"
  by (simp add: all_returned_def list_all_length)

lemma life_inv_accepting:
  assumes "life_inv s" and "isAcceptingWork s"
  shows "finishers s = []" and "\<forall>tk \<in> set (tasks s). snd tk \<noteq> Returned"
    and "workers s = [0 ..< length (tasks s)]"
proof -
  show f: "finishers s = []" using assms by (auto simp: life_inv_def)
  show r: "\<forall>tk \<in> set (tasks s). snd tk \<noteq> Returned" using assms by (auto simp: life_inv_def)
  have "all_returned (tasks s) \<Longrightarrow> tasks s = []"
    using r by (cases "tasks s") (auto simp: all_returned_def)
  then show "workers s = [0 ..< length (tasks s)]"
    using assms(1) by (auto simp: life_inv_def)
qed

lemma finisher_ok_frame:
  assumes "tasks s' = tasks s" "workers s' = workers s"
  shows "finisher_ok s' f = finisher_ok s f"
  using assms by (simp add: finisher_ok_def split: finisher.splits)

lemma life_inv_frame:
  assumes "tasks s' = tasks s" "concurrency s' = concurrency s" "workers s' = workers s"
    "isAcceptingWork s' = isAcceptingWork s" "queue s' = queue s" "finishers s' = finishers s"
  shows "life_inv s' = life_inv s"
  using assms finisher_ok_frame [of s' s] by (simp add: life_inv_def)

lemma building_life_inv:
  assumes "building (nat (concurrency s)) s"
  shows "life_inv s"
proof -
  have len: "length (tasks s) = nat (concurrency s)"
    using assms by (metis building_def length_map length_upt diff_zero)
  then have "1 \<le> concurrency s \<Longrightarrow> tasks s \<noteq> []" by auto
  then show ?thesis
    using assms len by (auto simp: life_inv_def building_def)
qed

lemma worker_turn_life_inv:
  assumes inv: "life_inv s" and t: "t < length (tasks s)" and nr: "snd (tasks s ! t) \<noteq> Returned"
  shows "life_inv (worker_turn t s)"
proof -
  let ?s' = "worker_turn t s"
  have nar: "\<not> all_returned (tasks s)"
    using all_returned_nth [OF _ t] nr by blast
  have ne: "tasks s \<noteq> []" using t by auto
  have l2: "map fst (tasks ?s') = map Suc [0 ..< nat (concurrency ?s')]"
    using inv ne worker_turn_fst [OF t] by (simp add: life_inv_def)
  have l3: "workers ?s' = [0 ..< length (tasks ?s')]"
    using inv nar by (simp add: life_inv_def)
  have new: "suspended (snd (tasks ?s' ! t)) \<and>
         (snd (tasks ?s' ! t) = Returned \<longrightarrow> \<not> isAcceptingWork s \<and> queue s = [])"
    using worker_turn_new_state [OF t] .
  have l4: "\<forall>tk \<in> set (tasks ?s'). suspended (snd tk) \<and>
           (snd tk = Returned \<longrightarrow> \<not> isAcceptingWork ?s' \<and> queue ?s' = [])"
  proof
    fix tk assume "tk \<in> set (tasks ?s')"
    then have "tk = tasks ?s' ! t \<or> tk \<in> set (tasks s)"
      using worker_turn_set_tasks [OF t] by auto
    then show "suspended (snd tk) \<and> (snd tk = Returned \<longrightarrow> \<not> isAcceptingWork ?s' \<and> queue ?s' = [])"
      using new inv by (auto simp: life_inv_def worker_turn_queue)
  qed
  have l5: "finishers ?s' \<noteq> [] \<longrightarrow> \<not> isAcceptingWork ?s'"
    using inv by (simp add: life_inv_def)
  have l6: "\<forall>f \<in> set (finishers ?s'). finisher_ok ?s' f"
    using inv nar by (auto simp: life_inv_def finisher_ok_def split: finisher.splits)
  have l7: "tasks ?s' \<noteq> []"
    using ne by (metis worker_turn_frame(15) length_0_conv)
  show ?thesis
    unfolding life_inv_def using l2 l3 l4 l5 l6 l7 by blast
qed

lemma worker_finally_life_inv [simp]:
  "life_inv (worker_finally j (s\<lparr> delivered := d \<rparr>)) = life_inv s"
  by (rule life_inv_frame) simp_all

lemma settle_turn_life_inv:
  assumes inv: "life_inv s" and jinv: "jobs_inv s" and t: "t < length (tasks s)"
  shows "life_inv (settle_turn t res s)"
proof (cases "snd (tasks s ! t)")
  case (AwaitJob j resolve startTime ticks)
  have "tasks s ! t \<in> set (tasks s)" using t by simp
  then have "resolver_ok (snd (tasks s ! t))" using jinv by (simp add: jobs_inv_def)
  then have r: "resolve = Some (concurrentJobId j)" using AwaitJob by (simp add: resolver_ok_def)
  show ?thesis
    using AwaitJob r inv t
    by (simp add: settle_turn_def Let_def) (rule worker_turn_life_inv, simp_all)
qed (simp_all add: settle_turn_def inv)

lemma fire_life_inv:
  assumes inv: "life_inv s" and t: "t < length (tasks s)"
  shows "life_inv (fire t s)"
proof -
  consider "tasks (fire t s) = tasks s"
    | w j resolve startTime ticks where "tasks s ! t = (w, AwaitJob j resolve startTime ticks)"
      and "tasks (fire t s) = (tasks s)[t := (w, AwaitJob j resolve startTime (ticks + 1))]"
    using fire_tasks [of t s] by blast
  then show ?thesis
  proof cases
    case 1
    then show ?thesis using inv by (simp add: life_inv_frame [of "fire t s" s])
  next
    case 2
    let ?s' = "fire t s"
    have nar: "\<not> all_returned (tasks s)"
      using all_returned_nth [OF _ t] 2(1) by fastforce
    have nar': "\<not> all_returned (tasks ?s')"
      using all_returned_nth [of "tasks ?s'" t] t 2(2) by fastforce
    have fst: "map fst (tasks ?s') = map fst (tasks s)"
      using 2 t by (simp add: map_update list_update_same_conv)
    have mem: "\<forall>tk \<in> set (tasks ?s'). tk = (w, AwaitJob j resolve startTime (ticks + 1)) \<or> tk \<in> set (tasks s)"
      using set_update_subset_insert [of "tasks s" t "(w, AwaitJob j resolve startTime (ticks + 1))"] 2(2)
      by auto
    have l4: "\<forall>tk \<in> set (tasks ?s'). suspended (snd tk) \<and>
           (snd tk = Returned \<longrightarrow> \<not> isAcceptingWork ?s' \<and> queue ?s' = [])"
      using mem inv by (auto simp: life_inv_def suspended_def)
    have l6: "\<forall>f \<in> set (finishers ?s'). finisher_ok ?s' f"
      using inv nar by (auto simp: life_inv_def finisher_ok_def split: finisher.splits)
    have ne: "tasks ?s' \<noteq> []" using t 2(2) by auto
    have l2: "map fst (tasks ?s') = map Suc [0 ..< nat (concurrency ?s')]"
      using inv fst t by (auto simp: life_inv_def)
    have l3: "workers ?s' = [0 ..< length (tasks ?s')]"
      using inv nar by (simp add: life_inv_def)
    have l5: "finishers ?s' \<noteq> [] \<longrightarrow> \<not> isAcceptingWork ?s'"
      using inv by (simp add: life_inv_def)
    show ?thesis
      unfolding life_inv_def using l2 l3 l4 l5 l6 ne by blast
  qed
qed

lemma finishAllWork_life_inv:
  assumes "life_inv s"
  shows "life_inv (finishAllWork s)"
  using assms by (auto simp: life_inv_def finisher_ok_def split: finisher.splits)

lemma finishAllWork_resume_cases:
  "finishAllWork_resume k s = s \<or>
   (\<exists>ws. k < length (finishers s) \<and> finishers s ! k = FinPending ws \<and>
      (list_ex (\<lambda>t. task_state s t = Threw) ws \<and>
         finishAllWork_resume k s = s\<lparr> finishers := (finishers s)[k := FinRejected] \<rparr>
       \<or> \<not> list_ex (\<lambda>t. task_state s t = Threw) ws \<and> list_all (\<lambda>t. task_state s t = Returned) ws \<and>
         finishAllWork_resume k s = s\<lparr> workers := [], finishers := (finishers s)[k := FinResolved] \<rparr>))"
  by (cases "k < length (finishers s)"; cases "finishers s ! k")
     (auto simp: finishAllWork_resume_def)

lemma finishAllWork_resume_life_inv:
  assumes inv: "life_inv s"
  shows "life_inv (finishAllWork_resume k s)"
proof (cases "finishAllWork_resume k s = s")
  case False
  then obtain ws where k: "k < length (finishers s)" and f: "finishers s ! k = FinPending ws"
    and c: "list_ex (\<lambda>t. task_state s t = Threw) ws \<and>
         finishAllWork_resume k s = s\<lparr> finishers := (finishers s)[k := FinRejected] \<rparr>
       \<or> \<not> list_ex (\<lambda>t. task_state s t = Threw) ws \<and> list_all (\<lambda>t. task_state s t = Returned) ws \<and>
         finishAllWork_resume k s = s\<lparr> workers := [], finishers := (finishers s)[k := FinResolved] \<rparr>"
    using finishAllWork_resume_cases [of k s] by blast
  have "finishers s ! k \<in> set (finishers s)" using k by simp
  then have ok: "ws = [0 ..< length (tasks s)] \<or> (ws = [] \<and> all_returned (tasks s))"
    using inv f by (auto simp: life_inv_def finisher_ok_def)
  have nothrew: "\<not> list_ex (\<lambda>t. task_state s t = Threw) ws"
  proof
    assume "list_ex (\<lambda>t. task_state s t = Threw) ws"
    then obtain t where "t \<in> set ws" and th: "task_state s t = Threw"
      by (auto simp: list_ex_iff)
    then have "t < length (tasks s)" using ok by auto
    then have "tasks s ! t \<in> set (tasks s)" by simp
    then have "suspended (snd (tasks s ! t))" using inv by (auto simp: life_inv_def)
    then show False using th by (simp add: task_state_def suspended_def)
  qed
  then have all: "list_all (\<lambda>t. task_state s t = Returned) ws"
    and eq: "finishAllWork_resume k s = s\<lparr> workers := [], finishers := (finishers s)[k := FinResolved] \<rparr>"
    using c by blast+
  have ar: "all_returned (tasks s)"
    using ok all by (auto simp: all_returned_def list_all_length task_state_def)
  have "\<forall>f \<in> set ((finishers s)[k := FinResolved]). f = FinResolved \<or> f \<in> set (finishers s)"
    using set_update_subset_insert [of "finishers s" k FinResolved] by auto
  then show ?thesis
    unfolding eq using inv ar
    by (auto simp: life_inv_def finisher_ok_def split: finisher.splits)
qed (simp add: inv)

lemma blocked_iff: "blocked s n \<longleftrightarrow> (\<exists>p. snd (tasks s ! n) = AwaitWork p \<and> \<not> signals s ! p)"
  by (cases "snd (tasks s ! n)") (simp_all add: blocked_def)

lemma signal_coreD:
  assumes "signal_core s"
  shows "resolveWorkAvailable s = workAvailablePromise s"
    and "\<And>p. workAvailablePromise s = Some p \<Longrightarrow>
           p < length (signals s) \<and> \<not> signals s ! p \<and>
           (\<exists>n < length (tasks s). snd (tasks s ! n) = AwaitWork p)"
    and "\<And>n p. n < length (tasks s) \<Longrightarrow> snd (tasks s ! n) = AwaitWork p \<Longrightarrow>
           p < length (signals s) \<and> (\<not> signals s ! p \<longrightarrow> workAvailablePromise s = Some p)"
  using assms unfolding signal_core_def by blast+

lemma signal_coreI:
  assumes "resolveWorkAvailable s = workAvailablePromise s"
    and "\<And>p. workAvailablePromise s = Some p \<Longrightarrow>
           p < length (signals s) \<and> \<not> signals s ! p \<and>
           (\<exists>n < length (tasks s). snd (tasks s ! n) = AwaitWork p)"
    and "\<And>n p. n < length (tasks s) \<Longrightarrow> snd (tasks s ! n) = AwaitWork p \<Longrightarrow>
           p < length (signals s) \<and> (\<not> signals s ! p \<longrightarrow> workAvailablePromise s = Some p)"
  shows "signal_core s"
  unfolding signal_core_def using assms by blast

lemma signal_core_frame:
  assumes "tasks s' = tasks s" "signals s' = signals s"
    "workAvailablePromise s' = workAvailablePromise s" "resolveWorkAvailable s' = resolveWorkAvailable s"
  shows "signal_core s' = signal_core s"
  unfolding signal_core_def assms ..

lemma no_lost_wakeup_frame:
  assumes "tasks s' = tasks s" "signals s' = signals s" "queue s' = queue s" "isAcceptingWork s' = isAcceptingWork s"
  shows "no_lost_wakeup s' = no_lost_wakeup s"
  unfolding no_lost_wakeup_def blocked_iff assms ..

text \<open>What \<open>worker_loop\<close> does to the signal: nothing, unless it arms.\<close>

lemma worker_turn_signal_cases [consumes 1, case_names quiet fresh join]:
  assumes t: "t < length (tasks s)"
  obtains
    (quiet) "signals (worker_turn t s) = signals s"
      "workAvailablePromise (worker_turn t s) = workAvailablePromise s"
      "resolveWorkAvailable (worker_turn t s) = resolveWorkAvailable s"
      "awaited (snd (tasks (worker_turn t s) ! t)) = None"
      "queue s \<noteq> [] \<or> \<not> isAcceptingWork s"
  | (fresh) "queue s = []" "isAcceptingWork s" "workAvailablePromise s = None"
      "signals (worker_turn t s) = signals s @ [False]"
      "workAvailablePromise (worker_turn t s) = Some (length (signals s))"
      "resolveWorkAvailable (worker_turn t s) = Some (length (signals s))"
      "snd (tasks (worker_turn t s) ! t) = AwaitWork (length (signals s))"
  | (join) p where "queue s = []" "isAcceptingWork s" "workAvailablePromise s = Some p"
      "signals (worker_turn t s) = signals s"
      "workAvailablePromise (worker_turn t s) = Some p"
      "resolveWorkAvailable (worker_turn t s) = resolveWorkAvailable s"
      "snd (tasks (worker_turn t s) ! t) = AwaitWork p"
proof (cases "queue s")
  case (Cons j rest)
  show ?thesis by (rule quiet) (simp_all add: worker_turn_def Cons t)
next
  case Nil
  show ?thesis
  proof (cases "isAcceptingWork s")
    case False
    show ?thesis by (rule quiet) (simp_all add: worker_turn_def Nil False t)
  next
    case True
    show ?thesis
    proof (cases "workAvailablePromise s")
      case None
      show ?thesis
        by (rule fresh) (simp_all add: worker_turn_def Nil True None t waitForWorkAvailable_def Let_def)
    next
      case (Some p)
      show ?thesis
        by (rule join [of p]) (simp_all add: worker_turn_def Nil True Some t waitForWorkAvailable_def Let_def)
    qed
  qed
qed

lemma worker_turn_signal_core:
  assumes core: "signal_core s" and t: "t < length (tasks s)" and nb: "\<not> blocked s t"
  shows "signal_core (worker_turn t s)"
proof -
  let ?s' = "worker_turn t s"
  note c1 = signal_coreD(1) [OF core]
  note c2 = signal_coreD(2) [OF core]
  note c3 = signal_coreD(3) [OF core]
  have len: "length (tasks ?s') = length (tasks s)" by simp
  have oth: "\<And>n. n \<noteq> t \<Longrightarrow> tasks ?s' ! n = tasks s ! n"
    by (rule worker_turn_nth)
  have other: "\<And>p. workAvailablePromise s = Some p \<Longrightarrow>
      \<exists>n < length (tasks ?s'). snd (tasks ?s' ! n) = AwaitWork p"
  proof -
    fix p assume sp: "workAvailablePromise s = Some p"
    then obtain n where n: "n < length (tasks s)" "snd (tasks s ! n) = AwaitWork p" and np: "\<not> signals s ! p"
      using c2 by blast
    then have "n \<noteq> t" using nb unfolding blocked_iff by blast
    then have "n < length (tasks ?s') \<and> snd (tasks ?s' ! n) = AwaitWork p"
      using n oth [of n] len by simp
    then show "\<exists>n < length (tasks ?s'). snd (tasks ?s' ! n) = AwaitWork p"
      by blast
  qed
  show ?thesis
  using t proof (cases rule: worker_turn_signal_cases)
    case quiet
    show ?thesis
    proof (rule signal_coreI)
      show "resolveWorkAvailable ?s' = workAvailablePromise ?s'"
        using quiet(2,3) c1 by simp
      show "\<And>p. workAvailablePromise ?s' = Some p \<Longrightarrow>
           p < length (signals ?s') \<and> \<not> signals ?s' ! p \<and>
           (\<exists>n < length (tasks ?s'). snd (tasks ?s' ! n) = AwaitWork p)"
      proof -
        fix p assume "workAvailablePromise ?s' = Some p"
        then have sp: "workAvailablePromise s = Some p" using quiet(2) by simp
        show "p < length (signals ?s') \<and> \<not> signals ?s' ! p \<and>
           (\<exists>n < length (tasks ?s'). snd (tasks ?s' ! n) = AwaitWork p)"
          using c2 [OF sp] other [OF sp] quiet(1) by simp
      qed
      show "\<And>n p. n < length (tasks ?s') \<Longrightarrow> snd (tasks ?s' ! n) = AwaitWork p \<Longrightarrow>
           p < length (signals ?s') \<and> (\<not> signals ?s' ! p \<longrightarrow> workAvailablePromise ?s' = Some p)"
      proof -
        fix n p assume n: "n < length (tasks ?s')" and w: "snd (tasks ?s' ! n) = AwaitWork p"
        have "n \<noteq> t" using quiet(4) w by auto
        then have w': "snd (tasks s ! n) = AwaitWork p" using w oth [of n] by simp
        have n': "n < length (tasks s)" using n len by simp
        show "p < length (signals ?s') \<and> (\<not> signals ?s' ! p \<longrightarrow> workAvailablePromise ?s' = Some p)"
          using c3 [OF n' w'] quiet(1,2) by simp
      qed
    qed
  next
    case fresh
    show ?thesis
    proof (rule signal_coreI)
      show "resolveWorkAvailable ?s' = workAvailablePromise ?s'"
        using fresh(5,6) by simp
      show "\<And>p. workAvailablePromise ?s' = Some p \<Longrightarrow>
           p < length (signals ?s') \<and> \<not> signals ?s' ! p \<and>
           (\<exists>n < length (tasks ?s'). snd (tasks ?s' ! n) = AwaitWork p)"
      proof -
        fix p assume "workAvailablePromise ?s' = Some p"
        then have p: "p = length (signals s)" using fresh(5) by simp
        have "t < length (tasks ?s') \<and> snd (tasks ?s' ! t) = AwaitWork p"
          using t len fresh(7) p by simp
        then have "\<exists>n < length (tasks ?s'). snd (tasks ?s' ! n) = AwaitWork p" by blast
        then show "p < length (signals ?s') \<and> \<not> signals ?s' ! p \<and>
           (\<exists>n < length (tasks ?s'). snd (tasks ?s' ! n) = AwaitWork p)"
          using p fresh(4) by simp
      qed
      show "\<And>n p. n < length (tasks ?s') \<Longrightarrow> snd (tasks ?s' ! n) = AwaitWork p \<Longrightarrow>
           p < length (signals ?s') \<and> (\<not> signals ?s' ! p \<longrightarrow> workAvailablePromise ?s' = Some p)"
      proof -
        fix n p assume n: "n < length (tasks ?s')" and w: "snd (tasks ?s' ! n) = AwaitWork p"
        show "p < length (signals ?s') \<and> (\<not> signals ?s' ! p \<longrightarrow> workAvailablePromise ?s' = Some p)"
        proof (cases "n = t")
          case True
          then have "p = length (signals s)" using w fresh(7) by simp
          then show ?thesis using fresh(4,5) by simp
        next
          case False
          then have w': "snd (tasks s ! n) = AwaitWork p" using w oth [of n] by simp
          have n': "n < length (tasks s)" using n len by simp
          have "p < length (signals s) \<and> signals s ! p"
            using c3 [OF n' w'] fresh(3) by auto
          then show ?thesis using fresh(4) by (simp add: nth_append)
        qed
      qed
    qed
  next
    case (join q)
    show ?thesis
    proof (rule signal_coreI)
      show "resolveWorkAvailable ?s' = workAvailablePromise ?s'"
        using join(3,5,6) c1 by simp
      show "\<And>p. workAvailablePromise ?s' = Some p \<Longrightarrow>
           p < length (signals ?s') \<and> \<not> signals ?s' ! p \<and>
           (\<exists>n < length (tasks ?s'). snd (tasks ?s' ! n) = AwaitWork p)"
      proof -
        fix p assume "workAvailablePromise ?s' = Some p"
        then have p: "p = q" using join(5) by simp
        have "t < length (tasks ?s') \<and> snd (tasks ?s' ! t) = AwaitWork p"
          using t len join(7) p by simp
        then have "\<exists>n < length (tasks ?s'). snd (tasks ?s' ! n) = AwaitWork p" by blast
        then show "p < length (signals ?s') \<and> \<not> signals ?s' ! p \<and>
           (\<exists>n < length (tasks ?s'). snd (tasks ?s' ! n) = AwaitWork p)"
          using p c2 [OF join(3)] join(4) by simp
      qed
      show "\<And>n p. n < length (tasks ?s') \<Longrightarrow> snd (tasks ?s' ! n) = AwaitWork p \<Longrightarrow>
           p < length (signals ?s') \<and> (\<not> signals ?s' ! p \<longrightarrow> workAvailablePromise ?s' = Some p)"
      proof -
        fix n p assume n: "n < length (tasks ?s')" and w: "snd (tasks ?s' ! n) = AwaitWork p"
        show "p < length (signals ?s') \<and> (\<not> signals ?s' ! p \<longrightarrow> workAvailablePromise ?s' = Some p)"
        proof (cases "n = t")
          case True
          then have "p = q" using w join(7) by simp
          then show ?thesis using c2 [OF join(3)] join(4,5) by simp
        next
          case False
          then have w': "snd (tasks s ! n) = AwaitWork p" using w oth [of n] by simp
          have n': "n < length (tasks s)" using n len by simp
          show ?thesis using c3 [OF n' w'] join(3,4,5) by simp
        qed
      qed
    qed
  qed
qed

lemma no_lost_wakeupI:
  assumes "\<And>n. n < length (tasks s) \<Longrightarrow> blocked s n \<Longrightarrow> queue s = [] \<and> isAcceptingWork s"
  shows "no_lost_wakeup s"
  unfolding no_lost_wakeup_def using assms by blast

lemma no_lost_wakeupD:
  assumes "no_lost_wakeup s" "n < length (tasks s)" "blocked s n"
  shows "queue s = [] \<and> isAcceptingWork s"
  using assms unfolding no_lost_wakeup_def by blast

lemma worker_turn_no_lost_wakeup:
  assumes nl: "no_lost_wakeup s" and t: "t < length (tasks s)"
  shows "no_lost_wakeup (worker_turn t s)"
proof (rule no_lost_wakeupI)
  let ?s' = "worker_turn t s"
  fix n assume n: "n < length (tasks ?s')" and b: "blocked ?s' n"
  have oth: "\<And>n. n \<noteq> t \<Longrightarrow> tasks ?s' ! n = tasks s ! n"
    by (rule worker_turn_nth)
  obtain p where w: "snd (tasks ?s' ! n) = AwaitWork p" and ns: "\<not> signals ?s' ! p"
    using b unfolding blocked_iff by blast
  have "queue s = [] \<and> isAcceptingWork s"
  using t proof (cases rule: worker_turn_signal_cases)
    case quiet
    have "n \<noteq> t" using w quiet(4) by auto
    then have "snd (tasks s ! n) = AwaitWork p" using w oth [of n] by simp
    then have "blocked s n" using ns quiet(1) unfolding blocked_iff by simp
    moreover have "n < length (tasks s)" using n by simp
    ultimately show ?thesis using no_lost_wakeupD [OF nl] by blast
  next
    case fresh
    then show ?thesis by simp
  next
    case (join q)
    then show ?thesis by simp
  qed
  then show "queue ?s' = [] \<and> isAcceptingWork ?s'"
    by (simp add: worker_turn_queue)
qed

lemma notify_signals:
  "signals (notifyWorkersOfNewWork s) =
     (case resolveWorkAvailable s of None \<Rightarrow> signals s | Some p \<Rightarrow> (signals s)[p := True])"
  "workAvailablePromise (notifyWorkersOfNewWork s) =
     (case resolveWorkAvailable s of None \<Rightarrow> workAvailablePromise s | Some p \<Rightarrow> None)"
  "resolveWorkAvailable (notifyWorkersOfNewWork s) = None"
  by (simp_all add: notifyWorkersOfNewWork_def split: option.splits)

text \<open>After \<open>notifyWorkersOfNewWork\<close> no task is blocked.\<close>

lemma notify_unblocks:
  assumes core: "signal_core s" and n: "n < length (tasks s)"
  shows "\<not> blocked (notifyWorkersOfNewWork s) n"
proof
  assume "blocked (notifyWorkersOfNewWork s) n"
  then obtain p where w: "snd (tasks s ! n) = AwaitWork p"
    and ns: "\<not> signals (notifyWorkersOfNewWork s) ! p"
    unfolding blocked_iff by auto
  note c1 = signal_coreD(1) [OF core]
  note c3 = signal_coreD(3) [OF core n w]
  show False
  proof (cases "workAvailablePromise s")
    case None
    then show ?thesis using ns c1 c3 by (simp add: notify_signals)
  next
    case (Some q)
    then show ?thesis using ns c1 c3 by (cases "p = q") (simp_all add: notify_signals)
  qed
qed

lemma notify_signal_core:
  assumes core: "signal_core s"
  shows "signal_core (notifyWorkersOfNewWork s)"
proof (rule signal_coreI)
  let ?s' = "notifyWorkersOfNewWork s"
  note c1 = signal_coreD(1) [OF core]
  have slot: "workAvailablePromise ?s' = None"
  proof (cases "resolveWorkAvailable s")
    case None
    then show ?thesis using c1 by (simp add: notify_signals(2))
  next
    case (Some q)
    then show ?thesis by (simp add: notify_signals(2))
  qed
  show "resolveWorkAvailable ?s' = workAvailablePromise ?s'"
    using slot by (simp add: notify_signals(3))
  show "\<And>p. workAvailablePromise ?s' = Some p \<Longrightarrow>
           p < length (signals ?s') \<and> \<not> signals ?s' ! p \<and>
           (\<exists>n < length (tasks ?s'). snd (tasks ?s' ! n) = AwaitWork p)"
    using slot by simp
  show "\<And>n p. n < length (tasks ?s') \<Longrightarrow> snd (tasks ?s' ! n) = AwaitWork p \<Longrightarrow>
      p < length (signals ?s') \<and> (\<not> signals ?s' ! p \<longrightarrow> workAvailablePromise ?s' = Some p)"
  proof -
    fix n p assume n: "n < length (tasks ?s')" and w: "snd (tasks ?s' ! n) = AwaitWork p"
    have n': "n < length (tasks s)" using n by simp
    have w': "snd (tasks s ! n) = AwaitWork p" using w by simp
    have "\<not> blocked ?s' n" using notify_unblocks [OF core n'] .
    then have "signals ?s' ! p" using w unfolding blocked_iff by simp
    moreover have "p < length (signals s)" using signal_coreD(3) [OF core n' w'] by simp
    then have "p < length (signals ?s')"
      by (cases "resolveWorkAvailable s") (simp_all add: notify_signals(1))
    ultimately show "p < length (signals ?s') \<and> (\<not> signals ?s' ! p \<longrightarrow> workAvailablePromise ?s' = Some p)"
      by simp
  qed
qed

lemma notify_no_lost_wakeup:
  assumes "signal_core s"
  shows "no_lost_wakeup (notifyWorkersOfNewWork s)"
  by (rule no_lost_wakeupI) (use notify_unblocks [OF assms] in simp)

lemma signal_core_append_running:
  assumes core: "signal_core s"
  shows "signal_core (s\<lparr> tasks := tasks s @ [(w, Running)] \<rparr>)"
proof (rule signal_coreI)
  let ?s0 = "s\<lparr> tasks := tasks s @ [(w, Running)] \<rparr>"
  show "resolveWorkAvailable ?s0 = workAvailablePromise ?s0"
    using signal_coreD(1) [OF core] by simp
  show "\<And>p. workAvailablePromise ?s0 = Some p \<Longrightarrow>
           p < length (signals ?s0) \<and> \<not> signals ?s0 ! p \<and>
           (\<exists>n < length (tasks ?s0). snd (tasks ?s0 ! n) = AwaitWork p)"
  proof -
    fix p assume "workAvailablePromise ?s0 = Some p"
    then have sp: "workAvailablePromise s = Some p" by simp
    obtain n where n: "n < length (tasks s)" "snd (tasks s ! n) = AwaitWork p"
      and r: "p < length (signals s)" "\<not> signals s ! p"
      using signal_coreD(2) [OF core sp] by blast
    have "n < length (tasks ?s0) \<and> snd (tasks ?s0 ! n) = AwaitWork p"
      using n by (simp add: nth_append)
    then have "\<exists>n < length (tasks ?s0). snd (tasks ?s0 ! n) = AwaitWork p" by blast
    then show "p < length (signals ?s0) \<and> \<not> signals ?s0 ! p \<and>
           (\<exists>n < length (tasks ?s0). snd (tasks ?s0 ! n) = AwaitWork p)"
      using r by simp
  qed
  show "\<And>n p. n < length (tasks ?s0) \<Longrightarrow> snd (tasks ?s0 ! n) = AwaitWork p \<Longrightarrow>
           p < length (signals ?s0) \<and> (\<not> signals ?s0 ! p \<longrightarrow> workAvailablePromise ?s0 = Some p)"
  proof -
    fix n p assume n: "n < length (tasks ?s0)" and w: "snd (tasks ?s0 ! n) = AwaitWork p"
    have n': "n < length (tasks s)"
      using n w by (cases "n = length (tasks s)") simp_all
    then have "snd (tasks s ! n) = AwaitWork p"
      using w by (simp add: nth_append)
    then show "p < length (signals ?s0) \<and> (\<not> signals ?s0 ! p \<longrightarrow> workAvailablePromise ?s0 = Some p)"
      using signal_coreD(3) [OF core n'] by simp
  qed
qed

lemma finishAllWork_signal_inv:
  assumes "signal_core s"
  shows "signal_core (finishAllWork s) \<and> no_lost_wakeup (finishAllWork s)"
proof -
  let ?s1 = "s\<lparr> isAcceptingWork := False \<rparr>"
  let ?s2 = "notifyWorkersOfNewWork ?s1"
  have "signal_core ?s1 = signal_core s" by (rule signal_core_frame) simp_all
  then have c: "signal_core ?s1" using assms by simp
  have eq: "finishAllWork s = ?s2\<lparr> finishers := finishers ?s2 @ [FinPending (workers ?s2)] \<rparr>"
    by (simp add: finishAllWork_def Let_def)
  have "signal_core (finishAllWork s) = signal_core ?s2"
    unfolding eq by (rule signal_core_frame) simp_all
  moreover have "no_lost_wakeup (finishAllWork s) = no_lost_wakeup ?s2"
    unfolding eq by (rule no_lost_wakeup_frame) simp_all
  ultimately show ?thesis
    using notify_signal_core [OF c] notify_no_lost_wakeup [OF c] by simp
qed

lemma settle_turn_signal_inv:
  assumes core: "signal_core s" and nl: "no_lost_wakeup s" and jinv: "jobs_inv s" and t: "t < length (tasks s)"
  shows "signal_core (settle_turn t res s) \<and> no_lost_wakeup (settle_turn t res s)"
proof (cases "snd (tasks s ! t)")
  case (AwaitJob j resolve startTime ticks)
  have "tasks s ! t \<in> set (tasks s)" using t by simp
  then have "resolver_ok (snd (tasks s ! t))" using jinv by (simp add: jobs_inv_def)
  then have r: "resolve = Some (concurrentJobId j)" using AwaitJob by (simp add: resolver_ok_def)
  define outcome :: "('a, 'b) jobResult" where
    "outcome = (case res of Inr v \<Rightarrow> Fulfilled v (properties j) | Inl r \<Rightarrow> Rejected r (properties j))"
  let ?s1 = "worker_finally j (s\<lparr> delivered := delivered s @ [(concurrentJobId j, outcome)] \<rparr>)"
  have eq: "settle_turn t res s = worker_turn t ?s1"
    using AwaitJob r by (simp add: settle_turn_def outcome_def Let_def)
  have "signal_core ?s1 = signal_core s" by (rule signal_core_frame) simp_all
  then have c: "signal_core ?s1" using core by simp
  have "no_lost_wakeup ?s1 = no_lost_wakeup s" by (rule no_lost_wakeup_frame) simp_all
  then have n: "no_lost_wakeup ?s1" using nl by simp
  have t1: "t < length (tasks ?s1)" using t by simp
  have nb: "\<not> blocked ?s1 t" unfolding blocked_iff using AwaitJob by simp
  show ?thesis
    unfolding eq using worker_turn_signal_core [OF c t1 nb] worker_turn_no_lost_wakeup [OF n t1] by simp
qed (simp_all add: settle_turn_def core nl)

lemma fire_awaited:
  "t < length (tasks s) \<Longrightarrow> n < length (tasks s) \<Longrightarrow>
   awaited (snd (tasks (fire t s) ! n)) = awaited (snd (tasks s ! n))"
  using fire_tasks [of t s] by (cases "n = t") auto

lemma awaited_iff: "awaited st = Some p \<longleftrightarrow> st = AwaitWork p"
  by (cases st) auto

lemma signal_core_awaited_frame:
  assumes "length (tasks s') = length (tasks s)"
    and "\<And>n. n < length (tasks s) \<Longrightarrow> awaited (snd (tasks s' ! n)) = awaited (snd (tasks s ! n))"
    and "signals s' = signals s"
    and "workAvailablePromise s' = workAvailablePromise s" "resolveWorkAvailable s' = resolveWorkAvailable s"
  shows "signal_core s' = signal_core s"
proof -
  have "\<And>n p. n < length (tasks s) \<Longrightarrow> (snd (tasks s' ! n) = AwaitWork p) = (snd (tasks s ! n) = AwaitWork p)"
    using assms(2) by (metis awaited_iff)
  then show ?thesis
    unfolding signal_core_def assms(1,3,4,5) by (simp cong: conj_cong imp_cong)
qed

lemma no_lost_wakeup_awaited_frame:
  assumes "length (tasks s') = length (tasks s)"
    and "\<And>n. n < length (tasks s) \<Longrightarrow> awaited (snd (tasks s' ! n)) = awaited (snd (tasks s ! n))"
    and "signals s' = signals s" "queue s' = queue s" "isAcceptingWork s' = isAcceptingWork s"
  shows "no_lost_wakeup s' = no_lost_wakeup s"
  unfolding no_lost_wakeup_def blocked_def assms(1,3,4,5) using assms(2) by simp

lemma fire_signal_inv:
  assumes "t < length (tasks s)"
  shows "signal_core (fire t s) = signal_core s" and "no_lost_wakeup (fire t s) = no_lost_wakeup s"
proof -
  show "signal_core (fire t s) = signal_core s"
    by (rule signal_core_awaited_frame) (simp_all add: fire_awaited assms)
  show "no_lost_wakeup (fire t s) = no_lost_wakeup s"
    by (rule no_lost_wakeup_awaited_frame) (simp_all add: fire_awaited assms)
qed

lemma checkIfIdle_waiters:
  "idleResolved (checkIfIdle s) @ waitingResolvers (checkIfIdle s) = idleResolved s @ waitingResolvers s"
  "idle s \<Longrightarrow> waitingResolvers (checkIfIdle s) = []"
  "\<not> idle s \<Longrightarrow> waitingResolvers (checkIfIdle s) = waitingResolvers s"
  "\<not> idle s \<Longrightarrow> idleResolved (checkIfIdle s) = idleResolved s"
  "idle s \<Longrightarrow> idleResolved (checkIfIdle s) = idleResolved s @ waitingResolvers s"
  by (auto simp: checkIfIdle_def idle_def Let_def)

lemma idle_checkIfIdle [simp]: "idle (checkIfIdle s) = idle s"
  by (simp add: idle_def)

lemma checkIfIdle_waiter_inv:
  assumes "distinct (idleResolved s @ waitingResolvers s)"
    and "set (idleResolved s @ waitingResolvers s) = {..< idleCalls s}"
  shows "waiter_inv (checkIfIdle s)"
proof (cases "idle s")
  case True
  then show ?thesis
    unfolding waiter_inv_def checkIfIdle_waiters(1)
    using assms checkIfIdle_waiters(2) [of s] by simp
next
  case False
  then show ?thesis
    unfolding waiter_inv_def checkIfIdle_waiters(1)
    using assms by simp
qed

lemma worker_turn_activeJobs:
  "queue s = [] \<Longrightarrow> activeJobs (worker_turn t s) = activeJobs s"
  "queue s \<noteq> [] \<Longrightarrow> activeJobs (worker_turn t s) = activeJobs s + 1"
  by (cases "queue s"; cases "isAcceptingWork s"; simp add: worker_turn_def)+

lemma worker_turn_idle:
  assumes "0 \<le> activeJobs s" and "idle (worker_turn t s)"
  shows "idle s"
proof (cases "queue s = []")
  case True
  then show ?thesis
    using assms(2) by (simp add: idle_def worker_turn_activeJobs(1) worker_turn_queue)
next
  case False
  then show ?thesis
    using assms by (simp add: idle_def worker_turn_activeJobs(2))
qed

lemma worker_turn_waiter_inv:
  assumes "waiter_inv s" and "0 \<le> activeJobs s"
  shows "waiter_inv (worker_turn t s)"
  using assms worker_turn_idle [OF assms(2), of t] by (auto simp: waiter_inv_def)

lemma executing_nonempty:
  assumes "t < length ts" and "snd (ts ! t) = AwaitJob j resolve startTime ticks"
  shows "1 \<le> length (executing ts)"
  using executing_split [OF assms(1)] assms(2) by simp

lemma settle_turn_waiter_inv:
  assumes inv: "waiter_inv s" and ainv: "active_inv s" and jinv: "jobs_inv s" and t: "t < length (tasks s)"
  shows "waiter_inv (settle_turn t res s)"
proof (cases "snd (tasks s ! t)")
  case (AwaitJob j resolve startTime ticks)
  have "tasks s ! t \<in> set (tasks s)" using t by simp
  then have "resolver_ok (snd (tasks s ! t))" using jinv by (simp add: jobs_inv_def)
  then have r: "resolve = Some (concurrentJobId j)" using AwaitJob by (simp add: resolver_ok_def)
  define outcome :: "('a, 'b) jobResult" where
    "outcome = (case res of Inr v \<Rightarrow> Fulfilled v (properties j) | Inl r \<Rightarrow> Rejected r (properties j))"
  let ?s0 = "s\<lparr> delivered := delivered s @ [(concurrentJobId j, outcome)] \<rparr>"
  let ?s1 = "worker_finally j ?s0"
  have eq: "settle_turn t res s = worker_turn t ?s1"
    using AwaitJob r by (simp add: settle_turn_def outcome_def Let_def)
  have act: "1 \<le> activeJobs s"
    using ainv executing_nonempty [OF t AwaitJob] by (simp add: active_inv_def)
  let ?s2 = "checkIfIdle (?s0\<lparr> activeJobs := activeJobs ?s0 - 1 \<rparr>)"
  have w2: "waiter_inv ?s2"
    using inv by (intro checkIfIdle_waiter_inv) (simp_all add: waiter_inv_def)
  have "waiter_inv ?s1"
    using w2 by (simp add: worker_finally_def Let_def waiter_inv_def idle_def)
  moreover have "0 \<le> activeJobs ?s1" using act by simp
  ultimately show ?thesis
    unfolding eq by (rule worker_turn_waiter_inv)
qed (simp_all add: settle_turn_def inv)

text \<open>After an accepted \<open>enqueue\<close> the pool is busy.\<close>

lemma worker_turn_busy: "busy s \<Longrightarrow> busy (worker_turn t s)"
  by (cases "queue s = []") (auto simp: worker_turn_activeJobs worker_turn_queue busy_def)

lemma busy_not_idle: "busy s \<Longrightarrow> \<not> idle s"
  by (auto simp: busy_def idle_def)

lemma waitForIdle_waiter_inv:
  assumes "waiter_inv s"
  shows "waiter_inv (waitForIdle s)"
  using assms by (auto simp: waiter_inv_def waitForIdle_def idle_def Let_def lessThan_Suc)

lemma waiter_inv_frame:
  assumes "activeJobs s' = activeJobs s" "queue s' = queue s" "waitingResolvers s' = waitingResolvers s"
    "idleResolved s' = idleResolved s" "idleCalls s' = idleCalls s"
  shows "waiter_inv s' = waiter_inv s"
  unfolding waiter_inv_def idle_def assms ..

lemma timer_ok_new [simp]: "timer_ok t (AwaitJob j resolve t 0)"
  by (simp add: timer_ok_def due_def)

lemma timer_ok_simps [simp]:
  "timer_ok t Running" "timer_ok t (AwaitWork p)" "timer_ok t Returned" "timer_ok t Threw"
  by (simp_all add: timer_ok_def)

lemma timer_invI:
  assumes "\<And>n. n < length (tasks s) \<Longrightarrow> timer_ok (clock s) (snd (tasks s ! n))"
  shows "timer_inv s"
  unfolding timer_inv_def using assms by blast

lemma timer_invD:
  assumes "timer_inv s" "n < length (tasks s)"
  shows "timer_ok (clock s) (snd (tasks s ! n))"
  using assms unfolding timer_inv_def by blast

lemma timer_inv_frame:
  assumes "tasks s' = tasks s" "clock s' = clock s"
  shows "timer_inv s' = timer_inv s"
  unfolding timer_inv_def assms ..

lemma worker_turn_new_timer:
  assumes "t < length (tasks s)"
  shows "timer_ok (clock s) (snd (tasks (worker_turn t s) ! t))"
  using assms by (cases "queue s"; cases "isAcceptingWork s") (simp_all add: worker_turn_def)

lemma worker_turn_timer_inv:
  assumes inv: "timer_inv s" and t: "t < length (tasks s)"
  shows "timer_inv (worker_turn t s)"
proof (rule timer_invI)
  fix n assume n: "n < length (tasks (worker_turn t s))"
  show "timer_ok (clock (worker_turn t s)) (snd (tasks (worker_turn t s) ! n))"
  proof (cases "n = t")
    case True
    then show ?thesis using worker_turn_new_timer [OF t] by simp
  next
    case False
    then show ?thesis using timer_invD [OF inv, of n] n worker_turn_nth [of n t s] by simp
  qed
qed

lemma settle_turn_timer_inv:
  assumes inv: "timer_inv s" and t: "t < length (tasks s)"
  shows "timer_inv (settle_turn t res s)"
proof (cases "snd (tasks s ! t)")
  case (AwaitJob j resolve startTime ticks)
  show ?thesis
  proof (cases resolve)
    case None
    have "timer_inv (set_task t Threw (worker_finally j s))"
    proof (rule timer_invI)
      fix n assume "n < length (tasks (set_task t Threw (worker_finally j s)))"
      then show "timer_ok (clock (set_task t Threw (worker_finally j s)))
          (snd (tasks (set_task t Threw (worker_finally j s)) ! n))"
        using timer_invD [OF inv, of n] by (cases "n = t") simp_all
    qed
    then show ?thesis using AwaitJob None by (simp add: settle_turn_def)
  next
    case (Some p)
    define outcome :: "('a, 'b) jobResult" where
      "outcome = (case res of Inr v \<Rightarrow> Fulfilled v (properties j) | Inl r \<Rightarrow> Rejected r (properties j))"
    let ?s1 = "worker_finally j (s\<lparr> delivered := delivered s @ [(p, outcome)] \<rparr>)"
    have eq: "settle_turn t res s = worker_turn t ?s1"
      using AwaitJob Some by (simp add: settle_turn_def outcome_def Let_def)
    have "timer_inv ?s1 = timer_inv s" by (rule timer_inv_frame) simp_all
    then have "timer_inv ?s1" using inv by simp
    then show ?thesis unfolding eq by (rule worker_turn_timer_inv) (simp add: t)
  qed
qed (simp_all add: settle_turn_def inv)

lemma fire_timer_inv:
  assumes inv: "timer_inv s" and t: "t < length (tasks s)"
  shows "timer_inv (fire t s)"
proof -
  consider "tasks (fire t s) = tasks s"
    | w j resolve startTime ticks where "tasks s ! t = (w, AwaitJob j resolve startTime ticks)"
      and "clock s = due startTime ticks"
      and "tasks (fire t s) = (tasks s)[t := (w, AwaitJob j resolve startTime (ticks + 1))]"
    using fire_tasks [of t s] by blast
  then show ?thesis
  proof cases
    case 1
    have "timer_inv (fire t s) = timer_inv s" by (rule timer_inv_frame) (simp_all add: 1)
    then show ?thesis using inv by simp
  next
    case 2
    show ?thesis
    proof (rule timer_invI)
      fix n assume n: "n < length (tasks (fire t s))"
      show "timer_ok (clock (fire t s)) (snd (tasks (fire t s) ! n))"
      proof (cases "n = t")
        case True
        then show ?thesis using 2 t by (simp add: timer_ok_def due_def)
      next
        case False
        then show ?thesis using timer_invD [OF inv, of n] n 2 by simp
      qed
    qed
  qed
qed

lemma timers_allow_nth:
  assumes "timers_allow ts t" and "n < length ts" and "snd (ts ! n) = AwaitJob j resolve startTime ticks"
  shows "t \<le> due startTime ticks"
  using assms by (auto simp: timers_allow_def list_all_length)

lemma length_executing: "length (executing ts) \<le> length ts"
proof (induction ts)
  case Nil
  show ?case by (simp add: executing_Nil)
next
  case (Cons tk ts)
  obtain w st where "tk = (w, st)" by (cases tk)
  then show ?case using Cons by (cases st) (simp_all add: executing_Cons)
qed


subsection \<open>runJobs\<close>








lemma in_flight_Cons: "in_flight ((w, st) # ts) = index_of st @ in_flight ts"
  by (simp add: in_flight_def)

lemma in_flight_Nil [simp]: "in_flight [] = []"
  by (simp add: in_flight_def)





lemma length_in_flight: "length (in_flight ts) \<le> length ts"
proof (induction ts)
  case Nil
  show ?case by simp
next
  case (Cons tk ts)
  obtain w st where "tk = (w, st)" by (cases tk)
  then show ?case using Cons by (cases st) (simp_all add: in_flight_Cons)
qed


lemma set_runner_simps [simp]:
  "runners (set_runner t st s) = (runners s)[t := (fst (runners s ! t), st)]"
  "jobs (set_runner t st s) = jobs s"
  "results (set_runner t st s) = results s"
  "nextIndex (set_runner t st s) = nextIndex s"
  "time (set_runner t st s) = time s"
  "logged (set_runner t st s) = logged s"
  "executed (set_runner t st s) = executed s"
  by (simp_all add: set_runner_def)

lemma throw_turn_simps [simp]:
  "runners (throw_turn r s) = runners s"
  "jobs (throw_turn r s) = jobs s"
  "results (throw_turn r s) =
     array_set (results s) (nextIndex s) (Rejected r (properties (jobs s ! nextIndex s)))"
  "nextIndex (throw_turn r s) = Suc (nextIndex s)"
  "time (throw_turn r s) = time s"
  "logged (throw_turn r s) = logged s"
  "executed (throw_turn r s) = executed s @ [nextIndex s]"
  by (simp_all add: throw_turn_def)

declare runner_loop.simps [simp del]

lemma runner_loop_returned:
  "length (jobs s) \<le> nextIndex s \<Longrightarrow>
   runner_loop body t s = set_runner t RReturned (s\<lparr> nextIndex := Suc (nextIndex s) \<rparr>)"
  by (subst runner_loop.simps) (simp add: Let_def)

lemma runner_loop_suspends:
  "nextIndex s < length (jobs s) \<Longrightarrow> body (execute (jobs s ! nextIndex s)) = None \<Longrightarrow>
   runner_loop body t s =
     set_runner t (RAwaitJob (nextIndex s) (time s) 0)
       (s\<lparr> nextIndex := Suc (nextIndex s), executed := executed s @ [nextIndex s] \<rparr>)"
  by (subst runner_loop.simps) (simp add: Let_def)

lemma runner_loop_throws:
  "nextIndex s < length (jobs s) \<Longrightarrow> body (execute (jobs s ! nextIndex s)) = Some r \<Longrightarrow>
   runner_loop body t s = runner_loop body t (throw_turn r s)"
  by (subst runner_loop.simps) (simp add: Let_def throw_turn_def)

lemma runner_loop_induct [case_names returned suspends throws]:
  assumes ret: "\<And>s. length (jobs s) \<le> nextIndex s \<Longrightarrow> P s"
    and sus: "\<And>s. nextIndex s < length (jobs s) \<Longrightarrow> body (execute (jobs s ! nextIndex s)) = None \<Longrightarrow> P s"
    and thr: "\<And>s r. nextIndex s < length (jobs s) \<Longrightarrow> body (execute (jobs s ! nextIndex s)) = Some r \<Longrightarrow>
           P (throw_turn r s) \<Longrightarrow> P s"
  shows "P (s :: ('v, 'r) oneShot)"
proof (induction "length (jobs s) - nextIndex s" arbitrary: s rule: less_induct)
  case less
  show ?case
  proof (cases "length (jobs s) \<le> nextIndex s")
    case True
    then show ?thesis by (rule ret)
  next
    case False
    then have lt: "nextIndex s < length (jobs s)" by simp
    show ?thesis
    proof (cases "body (execute (jobs s ! nextIndex s))")
      case None
      show ?thesis using lt None by (rule sus)
    next
      case (Some r)
      have "length (jobs (throw_turn r s)) - nextIndex (throw_turn r s) < length (jobs s) - nextIndex s"
        using lt by simp
      then have "P (throw_turn r s)" by (rule less)
      with lt Some show ?thesis by (rule thr)
    qed
  qed
qed

lemma runner_loop_frame [simp]:
  "jobs (runner_loop body t s) = jobs s"
  "time (runner_loop body t s) = time s"
  "logged (runner_loop body t s) = logged s"
  "length (runners (runner_loop body t s)) = length (runners s)"
  "map fst (runners (runner_loop body t s)) = map fst (runners s)"
proof -
  have "jobs (runner_loop body t s) = jobs s \<and> time (runner_loop body t s) = time s \<and>
        logged (runner_loop body t s) = logged s \<and>
        length (runners (runner_loop body t s)) = length (runners s) \<and>
        map fst (runners (runner_loop body t s)) = map fst (runners s)"
  proof (induction s rule: runner_loop_induct [where body = body])
    case (returned s)
    then show ?case
      by (cases "t < length (runners s)") (simp_all add: runner_loop_returned map_update list_update_beyond list_update_same_conv)
  next
    case (suspends s)
    then show ?case
      by (cases "t < length (runners s)") (simp_all add: runner_loop_suspends map_update list_update_beyond list_update_same_conv)
  next
    case (throws s r)
    then show ?case by (simp add: runner_loop_throws)
  qed
  then show "jobs (runner_loop body t s) = jobs s"
    "time (runner_loop body t s) = time s"
    "logged (runner_loop body t s) = logged s"
    "length (runners (runner_loop body t s)) = length (runners s)"
    "map fst (runners (runner_loop body t s)) = map fst (runners s)" by simp_all
qed
















lemma runner_fire_cases:
  "runner_fire t s = s \<or>
   (\<exists>w i startTime ticks. runners s ! t = (w, RAwaitJob i startTime ticks) \<and>
      time s = due startTime ticks \<and>
      runner_fire t s = (set_runner t (RAwaitJob i startTime (ticks + 1)) s)
          \<lparr> logged := logged s @ [watchdog_report (time s) startTime w (properties (jobs s ! i))] \<rparr>)"
  by (cases "runners s ! t"; cases "snd (runners s ! t)") (simp_all add: runner_fire_def)








lemma runJobs_started:
  assumes "runJobs body js c = Inr s"
  shows "\<exists>x n. to_number c = Inr x \<and> less_eq_zero c = Inr False \<and> c \<noteq> Null \<and> c \<noteq> Undefined \<and>
     array_length (math_min x (length js)) = Some n \<and>
     s = foldl (spawn_runner body)
           \<lparr> jobs = js, results = [], nextIndex = 0, runners = [], time = 0, logged = [], executed = [] \<rparr>
           [0 ..< n]"
  using assms by (auto simp: runJobs_def Let_def split: if_splits sum.splits bool.splits option.splits)

lemma oneShot_step_jobs [simp]: "jobs (oneShot_step body s e) = jobs s"
proof (cases e)
  case (JobSettles t res)
  then show ?thesis
    by (cases "snd (runners s ! t)") (simp_all add: runner_settled_def Let_def)
next
  case (TimerFires t)
  then show ?thesis
    using runner_fire_cases [of t s] by auto
next
  case (TimePasses d)
  then show ?thesis by simp
qed

lemma foldl_oneShot_step_jobs [simp]: "jobs (foldl (oneShot_step body) s es) = jobs s"
  by (induction es arbitrary: s) simp_all

lemma spawn_runner_frame [simp]:
  "jobs (spawn_runner body s idx) = jobs s"
  "length (runners (spawn_runner body s idx)) = Suc (length (runners s))"
  "map fst (runners (spawn_runner body s idx)) = map fst (runners s) @ [Suc idx]"
  by (simp_all add: spawn_runner_def)

lemma foldl_spawn_runner_frame [simp]:
  "jobs (foldl (spawn_runner body) s xs) = jobs s"
  "length (runners (foldl (spawn_runner body) s xs)) = length (runners s) + length xs"
  "map fst (runners (foldl (spawn_runner body) s xs)) = map fst (runners s) @ map Suc xs"
  by (induction xs arbitrary: s) simp_all

lemma oneShot_step_fst [simp]:
  "map fst (runners (oneShot_step body s e)) = map fst (runners s)"
proof (cases e)
  case (JobSettles t res)
  then show ?thesis
    by (cases "snd (runners s ! t)") (simp_all add: runner_settled_def Let_def)
next
  case (TimerFires t)
  show ?thesis
  proof (cases "runner_fire t s = s")
    case True
    then show ?thesis using TimerFires by simp
  next
    case False
    then obtain w i startTime ticks where st: "runners s ! t = (w, RAwaitJob i startTime ticks)"
      and eq: "runner_fire t s = (set_runner t (RAwaitJob i startTime (ticks + 1)) s)
          \<lparr> logged := logged s @ [watchdog_report (time s) startTime w (properties (jobs s ! i))] \<rparr>"
      using runner_fire_cases [of t s] by blast
    show ?thesis
      using TimerFires by (simp add: eq map_update list_update_same_conv)
  qed
next
  case (TimePasses d)
  then show ?thesis by simp
qed

lemma foldl_oneShot_step_fst [simp]:
  "map fst (runners (foldl (oneShot_step body) s es)) = map fst (runners s)"
  by (induction es arbitrary: s) simp_all


lemma runJobs_runners:
  assumes "runJobs_then body js c es = Inr s"
  shows "\<exists>x n. to_number c = Inr x \<and> array_length (math_min x (length js)) = Some n \<and>
     map fst (runners s) = map Suc [0 ..< n]"
proof -
  obtain s0 where s0: "runJobs body js c = Inr s0" and s: "s = foldl (oneShot_step body) s0 es"
    using assms by (auto simp: runJobs_then_def split: sum.splits)
  obtain x n where x: "to_number c = Inr x" "array_length (math_min x (length js)) = Some n"
    and st: "s0 = foldl (spawn_runner body)
           \<lparr> jobs = js, results = [], nextIndex = 0, runners = [], time = 0, logged = [], executed = [] \<rparr>
           [0 ..< n]"
    using runJobs_started [OF s0] by blast
  have "map fst (runners s) = map Suc [0 ..< n]" unfolding s st by simp
  then show ?thesis using x by blast
qed

lemma runner_fire_results [simp]:
  "results (runner_fire t s) = results s" "nextIndex (runner_fire t s) = nextIndex s"
  "jobs (runner_fire t s) = jobs s" "time (runner_fire t s) = time s"
  "executed (runner_fire t s) = executed s"
  "length (runners (runner_fire t s)) = length (runners s)"
  using runner_fire_cases [of t s] by auto












lemma runJobs_workers:
  assumes "runJobs_then body js (Number (Finite (of_int c))) es = Inr s"
  shows "1 \<le> c" and "map fst (runners s) = map Suc [0 ..< min (nat c) (length js)]"
proof -
  obtain s0 where s0: "runJobs body js (Number (Finite (of_int c))) = Inr s0"
    and "s = foldl (oneShot_step body) s0 es"
    using assms by (auto simp: runJobs_then_def split: sum.splits)
  have "less_eq_zero (Number (Finite (of_int c))) = Inr False"
    using runJobs_started [OF s0] by blast
  then show c: "1 \<le> c" by simp
  obtain x n where x: "to_number (Number (Finite (of_int c))) = Inr x"
    and n: "array_length (math_min x (length js)) = Some n"
    and ids: "map fst (runners s) = map Suc [0 ..< n]"
    using runJobs_runners [OF assms] by blast
  have "x = Finite (of_int c)" using x by simp
  moreover have "min (of_int c :: real) (of_nat (length js)) = of_int (min c (int (length js)))"
    by (simp add: min_def)
  ultimately have "n = nat (min c (int (length js)))"
    using n by (simp split: if_splits)
  then have "n = min (nat c) (length js)" using c by linarith
  then show "map fst (runners s) = map Suc [0 ..< min (nat c) (length js)]" using ids by simp
qed






lemma thrown_inv_runners [simp]: "thrown_inv body (s\<lparr> runners := rs \<rparr>) = thrown_inv body s"
  by (simp add: thrown_inv_def)






lemma runJobs_Inr:
  assumes "c \<noteq> Null" and "c \<noteq> Undefined" and "less_eq_zero c = Inr False"
    and "to_number c = Inr x" and "array_length (math_min x (length js)) = Some n"
  shows "runJobs body js c =
     Inr (foldl (spawn_runner body)
           \<lparr> jobs = js, results = [], nextIndex = 0, runners = [], time = 0, logged = [], executed = [] \<rparr>
           [0 ..< n])"
  using assms by (simp add: runJobs_def del: array_length.simps math_min.simps)

lemma array_length_of_int:
  assumes "0 \<le> m" and "m \<le> 4294967295"
  shows "array_length (Finite (of_int m)) = Some (nat m)"
proof -
  have "(of_int m :: real) \<le> of_int 4294967295" using assms(2) by (simp only: of_int_le_iff)
  then show ?thesis using assms(1) by simp
qed

lemma runJobs_bound:
  assumes "runJobs_then body js (Number (Finite (of_int c))) es = Inr s"
  shows "length (in_flight (runners s)) \<le> min (nat c) (length js)"
proof -
  have "map fst (runners s) = map Suc [0 ..< min (nat c) (length js)]"
    using assms by (rule runJobs_workers(2))
  then have "length (runners s) = min (nat c) (length js)"
    by (metis length_map length_upt diff_zero)
  then show ?thesis using length_in_flight [of "runners s"] by simp
qed





section \<open>The worker's loop, by turns\<close>

declare worker_loop.simps [simp del]
declare drain.simps [simp del]

lemma worker_loop_stops:
  "\<not> isAcceptingWork s \<Longrightarrow> queue s = [] \<Longrightarrow> worker_loop sync t s = set_task t Returned s"
  by (subst worker_loop.simps) simp

lemma worker_loop_arms:
  "isAcceptingWork s \<Longrightarrow> queue s = [] \<Longrightarrow>
   worker_loop sync t s =
     set_task t (AwaitWork (fst (waitForWorkAvailable s))) (snd (waitForWorkAvailable s))"
  by (subst worker_loop.simps) (simp add: case_prod_beta)

lemma worker_loop_takes:
  "queue s = j # rest \<Longrightarrow> throws (execute j) = None \<Longrightarrow>
   worker_loop (opaque throws) t s =
     set_task t (AwaitJob j (map_of (resolveMap s) (concurrentJobId j)) (clock s) 0)
       (s\<lparr> queue := rest, activeJobs := activeJobs s + 1 \<rparr>)"
  by (subst worker_loop.simps) (simp add: opaque_def Let_def)

lemma worker_loop_threw:
  "queue s = j # rest \<Longrightarrow> throws (execute j) = Some r \<Longrightarrow>
   map_of (resolveMap s) (concurrentJobId j) = None \<Longrightarrow>
   worker_loop (opaque throws) t s =
     set_task t Threw (worker_finally j (s\<lparr> queue := rest, activeJobs := activeJobs s + 1 \<rparr>))"
  by (subst worker_loop.simps) (simp add: opaque_def Let_def)

lemma worker_loop_throws:
  "queue s = j # rest \<Longrightarrow> throws (execute j) = Some r \<Longrightarrow>
   map_of (resolveMap s) (concurrentJobId j) = Some p \<Longrightarrow>
   worker_loop (opaque throws) t s =
     worker_loop (opaque throws) t
       (worker_finally j
          (s\<lparr> queue := rest, activeJobs := activeJobs s + 1,
               delivered := delivered s @ [(p, Rejected r (properties j))] \<rparr>))"
  by (subst worker_loop.simps) (simp add: opaque_def Let_def)

lemma drain_stops: "thrown_job throws t s = None \<Longrightarrow> drain throws t s = s"
  by (subst drain.simps) simp

lemma drain_goes_on:
  "thrown_job throws t s = Some r \<Longrightarrow> drain throws t s = drain throws t (settle_turn t (Inl r) s)"
  by (subst drain.simps) simp

lemma thrown_job_Some:
  assumes "thrown_job throws t s = Some r"
  obtains j resolve startTime ticks where "t < length (tasks s)"
    and "snd (tasks s ! t) = AwaitJob j resolve startTime ticks" and "throws (execute j) = Some r"
  using assms by (cases "snd (tasks s ! t)") (simp_all add: thrown_job_def split: if_splits)

lemma drain_induct [consumes 1, case_names settle]:
  "P s \<Longrightarrow>
   (\<And>s r. P s \<Longrightarrow> thrown_job throws t s = Some r \<Longrightarrow> P (settle_turn t (Inl r) s)) \<Longrightarrow>
   P (drain throws t s)"
proof (induction throws t s rule: drain.induct)
  case (1 throws t s)
  show ?case
  proof (cases "thrown_job throws t s")
    case None
    then show ?thesis using 1(2) by (simp add: drain_stops)
  next
    case (Some r)
    have a: "P (settle_turn t (Inl r) s)" using 1(2) Some by (rule 1(3))
    have "P (drain throws t (settle_turn t (Inl r) s))"
      by (rule 1(1) [OF Some a]) (rule 1(3); assumption)
    then show ?thesis using Some by (simp add: drain_goes_on)
  qed
qed

lemma worker_finally_set_task:
  "worker_finally j (set_task t st s) = set_task t st (worker_finally j s)"
  by (simp add: worker_finally_def checkIfIdle_def set_task_def Let_def)

lemma set_task_delivered:
  "(set_task t st s)\<lparr> delivered := d \<rparr> = set_task t st (s\<lparr> delivered := d \<rparr>)"
  by (simp add: set_task_def)

lemma thrown_job_set_task:
  assumes "t < length (tasks s)"
  shows "thrown_job throws t (set_task t st s) =
     (case st of AwaitJob j resolve startTime ticks \<Rightarrow> throws (execute j) | _ \<Rightarrow> None)"
  using assms by (simp add: thrown_job_def)

lemma worker_loop_drain:
  assumes "t < length (tasks s)"
  shows "worker_loop (opaque throws) t s = drain throws t (worker_turn t s)"
  using assms
proof (induction "length (queue s)" arbitrary: s rule: less_induct)
  case less
  note t = less.prems
  show ?case
  proof (cases "queue s")
    case Nil
    show ?thesis
    proof (cases "isAcceptingWork s")
      case True
      have "thrown_job throws t (worker_turn t s) = None"
        using Nil True t by (simp add: worker_turn_def thrown_job_def)
      then show ?thesis using Nil True by (simp add: worker_loop_arms drain_stops worker_turn_def)
    next
      case False
      have "thrown_job throws t (worker_turn t s) = None"
        using Nil False t by (simp add: worker_turn_def thrown_job_def)
      then show ?thesis using Nil False by (simp add: worker_loop_stops drain_stops worker_turn_def)
    qed
  next
    case (Cons j rest)
    let ?s1 = "s\<lparr> queue := rest, activeJobs := activeJobs s + 1 \<rparr>"
    let ?st = "AwaitJob j (map_of (resolveMap s) (concurrentJobId j)) (clock s) 0"
    have turn: "worker_turn t s = set_task t ?st ?s1"
      using Cons by (simp add: worker_turn_def)
    have t1: "t < length (tasks ?s1)" using t by simp
    have tj: "thrown_job throws t (worker_turn t s) = throws (execute j)"
      unfolding turn using thrown_job_set_task [OF t1, of throws ?st] by simp
    show ?thesis
    proof (cases "throws (execute j)")
      case None
      then show ?thesis using Cons tj turn by (simp add: worker_loop_takes drain_stops)
    next
      case (Some r)
      have go: "drain throws t (worker_turn t s) = drain throws t (settle_turn t (Inl r) (worker_turn t s))"
        using tj Some by (simp add: drain_goes_on)
      show ?thesis
      proof (cases "map_of (resolveMap s) (concurrentJobId j)")
        case None
        have st: "settle_turn t (Inl r) (worker_turn t s) = set_task t Threw (worker_finally j ?s1)"
          unfolding turn using None t
          by (simp add: settle_turn_def worker_finally_set_task set_task_twice)
        have "thrown_job throws t (set_task t Threw (worker_finally j ?s1)) = None"
          using thrown_job_set_task [of t "worker_finally j ?s1" throws Threw] t by simp
        then have "drain throws t (worker_turn t s) = set_task t Threw (worker_finally j ?s1)"
          unfolding go st by (rule drain_stops)
        then show ?thesis using Cons Some None by (simp add: worker_loop_threw)
      next
        case (Some p)
        let ?sn = "worker_finally j
          (s\<lparr> queue := rest, activeJobs := activeJobs s + 1,
               delivered := delivered s @ [(p, Rejected r (properties j))] \<rparr>)"
        have st: "settle_turn t (Inl r) (worker_turn t s) = worker_turn t ?sn"
          unfolding turn using Some t
          by (simp add: settle_turn_def set_task_delivered worker_finally_set_task worker_turn_reset)
        have "length (queue ?sn) < length (queue s)" using Cons by simp
        moreover have "t < length (tasks ?sn)" using t by simp
        ultimately have "worker_loop (opaque throws) t ?sn = drain throws t (worker_turn t ?sn)"
          by (rule less.hyps)
        then show ?thesis
          using Cons \<open>throws (execute j) = Some r\<close> Some unfolding go st
          by (simp add: worker_loop_throws)
      qed
    qed
  qed
qed

lemma worker_settled_drain:
  assumes "t < length (tasks s)"
  shows "worker_settled (opaque throws) t res s = drain throws t (settle_turn t res s)"
proof (cases "snd (tasks s ! t)")
  case (AwaitJob j resolve startTime ticks)
  show ?thesis
  proof (cases resolve)
    case None
    have "thrown_job throws t (set_task t Threw (worker_finally j s)) = None"
      using thrown_job_set_task [of t "worker_finally j s" throws Threw] assms by simp
    then show ?thesis
      using AwaitJob None by (simp add: worker_settled_def settle_turn_def drain_stops)
  next
    case (Some p)
    then show ?thesis
      using AwaitJob assms
      by (simp add: worker_settled_def settle_turn_def Let_def worker_loop_drain)
  qed
qed (simp_all add: worker_settled_def settle_turn_def drain_stops thrown_job_def)

lemma worker_loop_induct [case_names stops arms takes threw throws]:
  assumes "\<And>s. \<not> isAcceptingWork s \<Longrightarrow> queue s = [] \<Longrightarrow> P s"
    and "\<And>s. isAcceptingWork s \<Longrightarrow> queue s = [] \<Longrightarrow> P s"
    and "\<And>s j rest. queue s = j # rest \<Longrightarrow> throws (execute j) = None \<Longrightarrow> P s"
    and "\<And>s j rest r. queue s = j # rest \<Longrightarrow> throws (execute j) = Some r \<Longrightarrow>
           map_of (resolveMap s) (concurrentJobId j) = None \<Longrightarrow> P s"
    and "\<And>s j rest r p. queue s = j # rest \<Longrightarrow> throws (execute j) = Some r \<Longrightarrow>
           map_of (resolveMap s) (concurrentJobId j) = Some p \<Longrightarrow>
           P (worker_finally j
                (s\<lparr> queue := rest, activeJobs := activeJobs s + 1,
                     delivered := delivered s @ [(p, Rejected r (properties j))] \<rparr>)) \<Longrightarrow> P s"
  shows "P (s :: ('v, 'r) pool)"
proof (induction "length (queue s)" arbitrary: s rule: less_induct)
  case less
  show ?case
  proof (cases "queue s")
    case Nil
    then show ?thesis using assms(1,2) [of s] by (cases "isAcceptingWork s") simp_all
  next
    case (Cons j rest)
    show ?thesis
    proof (cases "throws (execute j)")
      case None
      show ?thesis using Cons None by (rule assms(3))
    next
      case (Some r)
      show ?thesis
      proof (cases "map_of (resolveMap s) (concurrentJobId j)")
        case None
        show ?thesis using Cons Some None by (rule assms(4))
      next
        case (Some p)
        have "length (queue (worker_finally j
                (s\<lparr> queue := rest, activeJobs := activeJobs s + 1,
                     delivered := delivered s @ [(p, Rejected r (properties j))] \<rparr>))) < length (queue s)"
          using Cons by simp
        then have "P (worker_finally j
                (s\<lparr> queue := rest, activeJobs := activeJobs s + 1,
                     delivered := delivered s @ [(p, Rejected r (properties j))] \<rparr>))"
          by (rule less)
        with Cons \<open>throws (execute j) = Some r\<close> Some show ?thesis by (rule assms(5))
      qed
    qed
  qed
qed

lemma worker_loop_frame [simp]:
  "accepted (worker_loop (opaque throws) t s) = accepted s"
  "jobCounter (worker_loop (opaque throws) t s) = jobCounter s"
  "isAcceptingWork (worker_loop (opaque throws) t s) = isAcceptingWork s"
  "workers (worker_loop (opaque throws) t s) = workers s"
  "clock (worker_loop (opaque throws) t s) = clock s"
  "finishers (worker_loop (opaque throws) t s) = finishers s"
  "concurrency (worker_loop (opaque throws) t s) = concurrency s"
  "warnings (worker_loop (opaque throws) t s) = warnings s"
  "idleCalls (worker_loop (opaque throws) t s) = idleCalls s"
  "length (tasks (worker_loop (opaque throws) t s)) = length (tasks s)"
proof -
  have "accepted (worker_loop (opaque throws) t s) = accepted s \<and>
    jobCounter (worker_loop (opaque throws) t s) = jobCounter s \<and>
    isAcceptingWork (worker_loop (opaque throws) t s) = isAcceptingWork s \<and>
    workers (worker_loop (opaque throws) t s) = workers s \<and>
    clock (worker_loop (opaque throws) t s) = clock s \<and>
    finishers (worker_loop (opaque throws) t s) = finishers s \<and>
    concurrency (worker_loop (opaque throws) t s) = concurrency s \<and>
    warnings (worker_loop (opaque throws) t s) = warnings s \<and>
    idleCalls (worker_loop (opaque throws) t s) = idleCalls s \<and>
    length (tasks (worker_loop (opaque throws) t s)) = length (tasks s)"
  proof (induction s rule: worker_loop_induct [where throws = throws])
    case (stops s)
    then show ?case by (simp add: worker_loop_stops)
  next
    case (arms s)
    then show ?case by (simp add: worker_loop_arms)
  next
    case (takes s j rest)
    then show ?case by (simp add: worker_loop_takes)
  next
    case (threw s j rest r)
    then show ?case by (simp add: worker_loop_threw)
  next
    case (throws s j rest r p)
    then show ?case by (simp add: worker_loop_throws)
  qed
  then show "accepted (worker_loop (opaque throws) t s) = accepted s"
    "jobCounter (worker_loop (opaque throws) t s) = jobCounter s"
    "isAcceptingWork (worker_loop (opaque throws) t s) = isAcceptingWork s"
    "workers (worker_loop (opaque throws) t s) = workers s"
    "clock (worker_loop (opaque throws) t s) = clock s"
    "finishers (worker_loop (opaque throws) t s) = finishers s"
    "concurrency (worker_loop (opaque throws) t s) = concurrency s"
    "warnings (worker_loop (opaque throws) t s) = warnings s"
    "idleCalls (worker_loop (opaque throws) t s) = idleCalls s"
    "length (tasks (worker_loop (opaque throws) t s)) = length (tasks s)"
    by simp_all
qed

lemma worker_settled_frame [simp]:
  "accepted (worker_settled (opaque throws) t res s) = accepted s"
  "jobCounter (worker_settled (opaque throws) t res s) = jobCounter s"
  "isAcceptingWork (worker_settled (opaque throws) t res s) = isAcceptingWork s"
  "workers (worker_settled (opaque throws) t res s) = workers s"
  "clock (worker_settled (opaque throws) t res s) = clock s"
  "finishers (worker_settled (opaque throws) t res s) = finishers s"
  "concurrency (worker_settled (opaque throws) t res s) = concurrency s"
  "warnings (worker_settled (opaque throws) t res s) = warnings s"
  "idleCalls (worker_settled (opaque throws) t res s) = idleCalls s"
  "length (tasks (worker_settled (opaque throws) t res s)) = length (tasks s)"
  by (simp_all add: worker_settled_def Let_def split: wstate.splits option.splits)

subsection \<open>Jobs and active jobs\<close>

lemma drain_jobs_inv:
  assumes "jobs_inv s"
  shows "jobs_inv (drain throws t s)"
  using assms
proof (induction rule: drain_induct)
  case (settle s r)
  then show ?case by (elim thrown_job_Some) (rule settle_turn_jobs_inv)
qed

lemma drain_active_inv:
  assumes "active_inv s \<and> jobs_inv s"
  shows "active_inv (drain throws t s) \<and> jobs_inv (drain throws t s)"
  using assms
proof (induction rule: drain_induct)
  case (settle s r)
  then show ?case
    by (elim thrown_job_Some) (simp add: settle_turn_jobs_inv settle_turn_active_inv)
qed

lemma worker_loop_jobs_inv:
  assumes "jobs_inv s" and "t < length (tasks s)" and "job_of (snd (tasks s ! t)) = []"
  shows "jobs_inv (worker_loop (opaque throws) t s)"
  unfolding worker_loop_drain [OF assms(2)]
  by (rule drain_jobs_inv) (rule worker_turn_jobs_inv [OF assms])

lemma worker_loop_active:
  assumes "jobs_inv s" and "t < length (tasks s)" and "job_of (snd (tasks s ! t)) = []"
    and "active_inv s"
  shows "active_inv (worker_loop (opaque throws) t s)"
proof -
  have "active_inv (worker_turn t s)"
    using assms(2) by (rule worker_turn_active) (use assms(3,4) in \<open>simp add: active_inv_def\<close>)
  moreover have "jobs_inv (worker_turn t s)" using assms(1-3) by (rule worker_turn_jobs_inv)
  ultimately show ?thesis
    unfolding worker_loop_drain [OF assms(2)] using drain_active_inv by blast
qed

lemma worker_settled_jobs_inv:
  assumes "jobs_inv s" and "t < length (tasks s)"
  shows "jobs_inv (worker_settled (opaque throws) t res s)"
  unfolding worker_settled_drain [OF assms(2)]
  by (rule drain_jobs_inv) (rule settle_turn_jobs_inv [OF assms])

lemma worker_settled_active_inv:
  assumes "active_inv s" and "jobs_inv s" and "t < length (tasks s)"
  shows "active_inv (worker_settled (opaque throws) t res s)"
proof -
  have "active_inv (settle_turn t res s) \<and> jobs_inv (settle_turn t res s)"
    using assms by (simp add: settle_turn_jobs_inv settle_turn_active_inv)
  then show ?thesis
    unfolding worker_settled_drain [OF assms(3)] using drain_active_inv by blast
qed

subsection \<open>The tasks after a loop\<close>

lemma jobs_inv_resolver:
  assumes "jobs_inv s" and "t < length (tasks s)" and "snd (tasks s ! t) = AwaitJob j resolve startTime ticks"
  shows "resolve = Some (concurrentJobId j)"
proof -
  have "tasks s ! t \<in> set (tasks s)" using assms(2) by simp
  then have "resolver_ok (snd (tasks s ! t))" using assms(1) by (simp add: jobs_inv_def)
  then show ?thesis using assms(3) by (simp add: resolver_ok_def)
qed

lemma settle_turn_Some:
  assumes "snd (tasks s ! t) = AwaitJob j (Some p) startTime ticks"
  shows "settle_turn t res s =
     worker_turn t
       (worker_finally j
          (s\<lparr> delivered := delivered s
                @ [(p, case res of Inr v \<Rightarrow> Fulfilled v (properties j)
                                 | Inl r \<Rightarrow> Rejected r (properties j))] \<rparr>))"
  using assms by (simp add: settle_turn_def)

lemma settle_turn_shape:
  assumes "jobs_inv s" and "t < length (tasks s)"
    and "snd (tasks s ! t) = AwaitJob j resolve startTime ticks"
  shows "map fst (tasks (settle_turn t res s)) = map fst (tasks s)"
    and "\<And>t'. t' \<noteq> t \<Longrightarrow> tasks (settle_turn t res s) ! t' = tasks s ! t'"
    and "suspended (snd (tasks (settle_turn t res s) ! t))"
    and "snd (tasks (settle_turn t res s) ! t) = Returned \<Longrightarrow>
           \<not> isAcceptingWork s \<and> queue (settle_turn t res s) = []"
    and "length (tasks (settle_turn t res s)) = length (tasks s)"
proof -
  have r: "snd (tasks s ! t) = AwaitJob j (Some (concurrentJobId j)) startTime ticks"
    using jobs_inv_resolver [OF assms] assms(3) by simp
  note eq = settle_turn_Some [OF r, of res]
  let ?s1 = "worker_finally j
          (s\<lparr> delivered := delivered s
                @ [(concurrentJobId j, case res of Inr v \<Rightarrow> Fulfilled v (properties j)
                                 | Inl r \<Rightarrow> Rejected r (properties j))] \<rparr>)"
  have t1: "t < length (tasks ?s1)" using assms(2) by simp
  show "map fst (tasks (settle_turn t res s)) = map fst (tasks s)"
    unfolding eq using worker_turn_fst [OF t1] by simp
  show "\<And>t'. t' \<noteq> t \<Longrightarrow> tasks (settle_turn t res s) ! t' = tasks s ! t'"
    unfolding eq using worker_turn_nth [of _ t ?s1] by simp
  show "suspended (snd (tasks (settle_turn t res s) ! t))"
    unfolding eq using worker_turn_new_state [OF t1] by simp
  show "snd (tasks (settle_turn t res s) ! t) = Returned \<Longrightarrow>
           \<not> isAcceptingWork s \<and> queue (settle_turn t res s) = []"
    unfolding eq using worker_turn_new_state [OF t1] worker_turn_queue [of t ?s1] by simp
  show "length (tasks (settle_turn t res s)) = length (tasks s)"
    unfolding eq by simp
qed

lemma drain_shape:
  assumes "jobs_inv s" and "t < length (tasks s)"
    and "suspended (snd (tasks s ! t))"
    and "snd (tasks s ! t) = Returned \<longrightarrow> \<not> isAcceptingWork s \<and> queue s = []"
  shows "map fst (tasks (drain throws t s)) = map fst (tasks s)"
    and "\<And>t'. t' \<noteq> t \<Longrightarrow> tasks (drain throws t s) ! t' = tasks s ! t'"
    and "suspended (snd (tasks (drain throws t s) ! t))"
    and "snd (tasks (drain throws t s) ! t) = Returned \<Longrightarrow>
           \<not> isAcceptingWork s \<and> queue (drain throws t s) = []"
    and "length (tasks (drain throws t s)) = length (tasks s)"
    and "isAcceptingWork (drain throws t s) = isAcceptingWork s"
proof -
  define P where "P s' \<longleftrightarrow> jobs_inv s' \<and> length (tasks s') = length (tasks s) \<and>
      map fst (tasks s') = map fst (tasks s) \<and>
      (\<forall>t'. t' \<noteq> t \<longrightarrow> tasks s' ! t' = tasks s ! t') \<and>
      suspended (snd (tasks s' ! t)) \<and>
      (snd (tasks s' ! t) = Returned \<longrightarrow> \<not> isAcceptingWork s \<and> queue s' = []) \<and>
      isAcceptingWork s' = isAcceptingWork s" for s' :: "('a, 'b) pool"
  have "P s" using assms by (simp add: P_def)
  then have "P (drain throws t s)"
  proof (induction rule: drain_induct)
    case (settle s' r)
    from settle(2) obtain j resolve startTime ticks where t': "t < length (tasks s')"
      and st: "snd (tasks s' ! t) = AwaitJob j resolve startTime ticks"
      by (rule thrown_job_Some)
    have j: "jobs_inv s'" using settle(1) by (simp add: P_def)
    note sh = settle_turn_shape [OF j t' st, where res = "Inl r"]
    have acc: "isAcceptingWork (settle_turn t (Inl r) s') = isAcceptingWork s'"
      using jobs_inv_resolver [OF j t' st] st by (simp add: settle_turn_def)
    have "jobs_inv (settle_turn t (Inl r) s')" using j t' by (rule settle_turn_jobs_inv)
    then show ?case
      using settle(1) sh acc unfolding P_def by auto
  qed
  then show "map fst (tasks (drain throws t s)) = map fst (tasks s)"
    and "\<And>t'. t' \<noteq> t \<Longrightarrow> tasks (drain throws t s) ! t' = tasks s ! t'"
    and "suspended (snd (tasks (drain throws t s) ! t))"
    and "snd (tasks (drain throws t s) ! t) = Returned \<Longrightarrow>
           \<not> isAcceptingWork s \<and> queue (drain throws t s) = []"
    and "length (tasks (drain throws t s)) = length (tasks s)"
    and "isAcceptingWork (drain throws t s) = isAcceptingWork s"
    by (simp_all add: P_def)
qed

lemma worker_loop_shape:
  assumes "jobs_inv s" and "t < length (tasks s)" and "job_of (snd (tasks s ! t)) = []"
  shows "map fst (tasks (worker_loop (opaque throws) t s)) = map fst (tasks s)"
    and "\<And>t'. t' \<noteq> t \<Longrightarrow> tasks (worker_loop (opaque throws) t s) ! t' = tasks s ! t'"
    and "suspended (snd (tasks (worker_loop (opaque throws) t s) ! t))"
    and "snd (tasks (worker_loop (opaque throws) t s) ! t) = Returned \<Longrightarrow>
           \<not> isAcceptingWork s \<and> queue (worker_loop (opaque throws) t s) = []"
proof -
  let ?s1 = "worker_turn t s"
  have j1: "jobs_inv ?s1" using assms by (rule worker_turn_jobs_inv)
  have t1: "t < length (tasks ?s1)" using assms(2) by simp
  note ns = worker_turn_new_state [OF assms(2)]
  have s1: "suspended (snd (tasks ?s1 ! t))" using ns by simp
  have r1: "snd (tasks ?s1 ! t) = Returned \<longrightarrow> \<not> isAcceptingWork ?s1 \<and> queue ?s1 = []"
    using ns worker_turn_queue [of t s] by simp
  note d = drain_shape [OF j1 t1 s1 r1, where throws = throws]
  show "map fst (tasks (worker_loop (opaque throws) t s)) = map fst (tasks s)"
    unfolding worker_loop_drain [OF assms(2)] using d(1) worker_turn_fst [OF assms(2)] by simp
  show "\<And>t'. t' \<noteq> t \<Longrightarrow> tasks (worker_loop (opaque throws) t s) ! t' = tasks s ! t'"
    unfolding worker_loop_drain [OF assms(2)] using d(2) worker_turn_nth [of _ t s] by simp
  show "suspended (snd (tasks (worker_loop (opaque throws) t s) ! t))"
    unfolding worker_loop_drain [OF assms(2)] using d(3) .
  show "snd (tasks (worker_loop (opaque throws) t s) ! t) = Returned \<Longrightarrow>
           \<not> isAcceptingWork s \<and> queue (worker_loop (opaque throws) t s) = []"
    unfolding worker_loop_drain [OF assms(2)] using d(4) by simp
qed

lemma worker_loop_set_tasks:
  assumes "jobs_inv s" and "t < length (tasks s)" and "job_of (snd (tasks s ! t)) = []"
  shows "set (tasks (worker_loop (opaque throws) t s))
     \<subseteq> insert (tasks (worker_loop (opaque throws) t s) ! t) (set (tasks s))"
proof
  fix tk assume "tk \<in> set (tasks (worker_loop (opaque throws) t s))"
  then obtain n where n: "n < length (tasks s)" "tk = tasks (worker_loop (opaque throws) t s) ! n"
    by (metis in_set_conv_nth worker_loop_frame(10))
  show "tk \<in> insert (tasks (worker_loop (opaque throws) t s) ! t) (set (tasks s))"
  proof (cases "n = t")
    case True
    then show ?thesis using n by simp
  next
    case False
    then have "tk = tasks s ! n" using n worker_loop_shape(2) [OF assms, where t' = n and throws = throws] by simp
    then show ?thesis using n by simp
  qed
qed

subsection \<open>Workers and shutdown\<close>

lemma drain_life_inv:
  assumes "life_inv s \<and> jobs_inv s"
  shows "life_inv (drain throws t s) \<and> jobs_inv (drain throws t s)"
  using assms
proof (induction rule: drain_induct)
  case (settle s r)
  then show ?case
    by (elim thrown_job_Some) (simp add: settle_turn_jobs_inv settle_turn_life_inv)
qed

lemma worker_loop_life_inv:
  assumes "life_inv s" and "jobs_inv s" and "t < length (tasks s)" and "snd (tasks s ! t) \<noteq> Returned"
    and "job_of (snd (tasks s ! t)) = []"
  shows "life_inv (worker_loop (opaque throws) t s)"
proof -
  have "life_inv (worker_turn t s)" using assms(1,3,4) by (rule worker_turn_life_inv)
  moreover have "jobs_inv (worker_turn t s)" using assms(2,3,5) by (rule worker_turn_jobs_inv)
  ultimately show ?thesis
    unfolding worker_loop_drain [OF assms(3)] using drain_life_inv by blast
qed

lemma worker_settled_life_inv:
  assumes "life_inv s" and "jobs_inv s" and "t < length (tasks s)"
  shows "life_inv (worker_settled (opaque throws) t res s)"
proof -
  have "life_inv (settle_turn t res s) \<and> jobs_inv (settle_turn t res s)"
    using assms by (simp add: settle_turn_jobs_inv settle_turn_life_inv)
  then show ?thesis
    unfolding worker_settled_drain [OF assms(3)] using drain_life_inv by blast
qed

subsection \<open>The work-available signal\<close>

lemma settle_turn_signal_core:
  assumes core: "signal_core s" and jinv: "jobs_inv s" and t: "t < length (tasks s)"
  shows "signal_core (settle_turn t res s)"
proof (cases "snd (tasks s ! t)")
  case (AwaitJob j resolve startTime ticks)
  have r: "snd (tasks s ! t) = AwaitJob j (Some (concurrentJobId j)) startTime ticks"
    using jobs_inv_resolver [OF jinv t AwaitJob] AwaitJob by simp
  let ?s1 = "worker_finally j (s\<lparr> delivered := delivered s @ [(concurrentJobId j,
      case res of Inr v \<Rightarrow> Fulfilled v (properties j) | Inl r \<Rightarrow> Rejected r (properties j))] \<rparr>)"
  have "signal_core ?s1 = signal_core s" by (rule signal_core_frame) simp_all
  then have c: "signal_core ?s1" using core by simp
  have t1: "t < length (tasks ?s1)" using t by simp
  have nb: "\<not> blocked ?s1 t" unfolding blocked_iff using AwaitJob by simp
  show ?thesis
    unfolding settle_turn_Some [OF r] using c t1 nb by (rule worker_turn_signal_core)
qed (simp_all add: settle_turn_def core)

lemma settle_turn_no_lost_wakeup:
  assumes nl: "no_lost_wakeup s" and jinv: "jobs_inv s" and t: "t < length (tasks s)"
  shows "no_lost_wakeup (settle_turn t res s)"
proof (cases "snd (tasks s ! t)")
  case (AwaitJob j resolve startTime ticks)
  have r: "snd (tasks s ! t) = AwaitJob j (Some (concurrentJobId j)) startTime ticks"
    using jobs_inv_resolver [OF jinv t AwaitJob] AwaitJob by simp
  let ?s1 = "worker_finally j (s\<lparr> delivered := delivered s @ [(concurrentJobId j,
      case res of Inr v \<Rightarrow> Fulfilled v (properties j) | Inl r \<Rightarrow> Rejected r (properties j))] \<rparr>)"
  have "no_lost_wakeup ?s1 = no_lost_wakeup s" by (rule no_lost_wakeup_frame) simp_all
  then have n: "no_lost_wakeup ?s1" using nl by simp
  have t1: "t < length (tasks ?s1)" using t by simp
  show ?thesis
    unfolding settle_turn_Some [OF r] using n t1 by (rule worker_turn_no_lost_wakeup)
qed (simp_all add: settle_turn_def nl)

lemma drain_signal_core:
  assumes "signal_core s \<and> jobs_inv s"
  shows "signal_core (drain throws t s) \<and> jobs_inv (drain throws t s)"
  using assms
proof (induction rule: drain_induct)
  case (settle s r)
  then show ?case
    by (elim thrown_job_Some) (simp add: settle_turn_jobs_inv settle_turn_signal_core)
qed

lemma drain_no_lost_wakeup:
  assumes "no_lost_wakeup s \<and> jobs_inv s"
  shows "no_lost_wakeup (drain throws t s) \<and> jobs_inv (drain throws t s)"
  using assms
proof (induction rule: drain_induct)
  case (settle s r)
  then show ?case
    by (elim thrown_job_Some) (simp add: settle_turn_jobs_inv settle_turn_no_lost_wakeup)
qed

lemma worker_loop_signal_core:
  assumes "signal_core s" and "jobs_inv s" and "t < length (tasks s)" and "\<not> blocked s t"
    and "job_of (snd (tasks s ! t)) = []"
  shows "signal_core (worker_loop (opaque throws) t s)"
proof -
  have "signal_core (worker_turn t s)" using assms(1,3,4) by (rule worker_turn_signal_core)
  moreover have "jobs_inv (worker_turn t s)" using assms(2,3,5) by (rule worker_turn_jobs_inv)
  ultimately show ?thesis
    unfolding worker_loop_drain [OF assms(3)] using drain_signal_core by blast
qed

lemma worker_loop_no_lost_wakeup:
  assumes "no_lost_wakeup s" and "jobs_inv s" and "t < length (tasks s)"
    and "job_of (snd (tasks s ! t)) = []"
  shows "no_lost_wakeup (worker_loop (opaque throws) t s)"
proof -
  have "no_lost_wakeup (worker_turn t s)" using assms(1,3) by (rule worker_turn_no_lost_wakeup)
  moreover have "jobs_inv (worker_turn t s)" using assms(2,3,4) by (rule worker_turn_jobs_inv)
  ultimately show ?thesis
    unfolding worker_loop_drain [OF assms(3)] using drain_no_lost_wakeup by blast
qed

lemma worker_settled_signal_inv:
  assumes "signal_core s" and "no_lost_wakeup s" and "jobs_inv s" and "t < length (tasks s)"
  shows "signal_core (worker_settled (opaque throws) t res s)
     \<and> no_lost_wakeup (worker_settled (opaque throws) t res s)"
proof -
  have j: "jobs_inv (settle_turn t res s)" using assms(3,4) by (rule settle_turn_jobs_inv)
  have "signal_core (settle_turn t res s)" using assms(1,3,4) by (rule settle_turn_signal_core)
  then have a: "signal_core (drain throws t (settle_turn t res s))"
    using j drain_signal_core by blast
  have "no_lost_wakeup (settle_turn t res s)" using assms(2,3,4) by (rule settle_turn_no_lost_wakeup)
  then have b: "no_lost_wakeup (drain throws t (settle_turn t res s))"
    using j drain_no_lost_wakeup by blast
  show ?thesis unfolding worker_settled_drain [OF assms(4)] using a b by simp
qed

subsection \<open>The callers waiting for idle\<close>

lemma drain_waiter_inv:
  assumes "waiter_inv s \<and> active_inv s \<and> jobs_inv s"
  shows "waiter_inv (drain throws t s) \<and> active_inv (drain throws t s) \<and> jobs_inv (drain throws t s)"
  using assms
proof (induction rule: drain_induct)
  case (settle s r)
  then show ?case
    by (elim thrown_job_Some)
      (simp add: settle_turn_jobs_inv settle_turn_active_inv settle_turn_waiter_inv)
qed

lemma worker_loop_waiter_inv:
  assumes "waiter_inv s" and "active_inv s" and "jobs_inv s" and "t < length (tasks s)"
    and "job_of (snd (tasks s ! t)) = []"
  shows "waiter_inv (worker_loop (opaque throws) t s)"
proof -
  have "0 \<le> activeJobs s" using assms(2) by (simp add: active_inv_def)
  with assms(1) have "waiter_inv (worker_turn t s)" by (rule worker_turn_waiter_inv)
  moreover have "active_inv (worker_turn t s)"
    using assms(4) by (rule worker_turn_active) (use assms(2,5) in \<open>simp add: active_inv_def\<close>)
  moreover have "jobs_inv (worker_turn t s)" using assms(3,4,5) by (rule worker_turn_jobs_inv)
  ultimately show ?thesis
    unfolding worker_loop_drain [OF assms(4)] using drain_waiter_inv by blast
qed

lemma worker_settled_waiter_inv:
  assumes "waiter_inv s" and "active_inv s" and "jobs_inv s" and "t < length (tasks s)"
  shows "waiter_inv (worker_settled (opaque throws) t res s)"
proof -
  have "waiter_inv (settle_turn t res s) \<and> active_inv (settle_turn t res s) \<and> jobs_inv (settle_turn t res s)"
    using assms by (simp add: settle_turn_jobs_inv settle_turn_active_inv settle_turn_waiter_inv)
  then show ?thesis
    unfolding worker_settled_drain [OF assms(4)] using drain_waiter_inv by blast
qed

subsection \<open>The watchdog timers\<close>

lemma drain_timer_inv:
  assumes "timer_inv s"
  shows "timer_inv (drain throws t s)"
  using assms
proof (induction rule: drain_induct)
  case (settle s r)
  then show ?case by (elim thrown_job_Some) (rule settle_turn_timer_inv)
qed

lemma worker_loop_timer_inv:
  assumes "timer_inv s" and "t < length (tasks s)"
  shows "timer_inv (worker_loop (opaque throws) t s)"
  unfolding worker_loop_drain [OF assms(2)]
  by (rule drain_timer_inv) (rule worker_turn_timer_inv [OF assms])

lemma worker_settled_timer_inv:
  assumes "timer_inv s" and "t < length (tasks s)"
  shows "timer_inv (worker_settled (opaque throws) t res s)"
  unfolding worker_settled_drain [OF assms(2)]
  by (rule drain_timer_inv) (rule settle_turn_timer_inv [OF assms])

subsection \<open>Runs: jobs and active jobs\<close>

lemma spawn_worker_jobs_inv:
  assumes "jobs_inv s"
  shows "jobs_inv (spawn_worker (opaque throws) s i)"
proof -
  let ?s0 = "s\<lparr> tasks := tasks s @ [(i + 1, Running)] \<rparr>"
  have "jobs_inv ?s0"
    using assms by (simp add: jobs_inv_def pending_jobs_def executing_append executing_Cons executing_Nil resolver_ok_def)
  then have "jobs_inv (worker_loop (opaque throws) (length (tasks s)) ?s0)"
    by (rule worker_loop_jobs_inv) simp_all
  then show ?thesis
    by (simp add: spawn_worker_def Let_def)
qed

lemma spawn_worker_active_inv:
  assumes "active_inv s" and "jobs_inv s"
  shows "active_inv (spawn_worker (opaque throws) s i)"
proof -
  let ?s0 = "s\<lparr> tasks := tasks s @ [(i + 1, Running)] \<rparr>"
  have "jobs_inv ?s0"
    using assms(2) by (simp add: jobs_inv_def pending_jobs_def executing_append executing_Cons executing_Nil resolver_ok_def)
  moreover have "active_inv ?s0"
    using assms(1) by (simp add: active_inv_def executing_append executing_Cons executing_Nil)
  ultimately have "active_inv (worker_loop (opaque throws) (length (tasks s)) ?s0)"
    by (intro worker_loop_active) simp_all
  then show ?thesis
    by (simp add: spawn_worker_def Let_def)
qed

lemma ensureWorkers_jobs_inv: "jobs_inv s \<Longrightarrow> jobs_inv (ensureWorkers (opaque throws) s)"
  by (simp add: ensureWorkers_def foldl_preserves [where P = jobs_inv] spawn_worker_jobs_inv)

lemma ensureWorkers_active_inv:
  assumes "active_inv s" and "jobs_inv s"
  shows "active_inv (ensureWorkers (opaque throws) s)"
proof -
  have "active_inv (foldl (spawn_worker (opaque throws)) s xs) \<and> jobs_inv (foldl (spawn_worker (opaque throws)) s xs)" for xs
    by (rule foldl_preserves [where P = "\<lambda>s. active_inv s \<and> jobs_inv s"])
      (simp_all add: assms spawn_worker_active_inv spawn_worker_jobs_inv)
  then show ?thesis using assms(1) by (simp add: ensureWorkers_def)
qed

lemma enqueue_jobs_inv:
  assumes "jobs_inv s"
  shows "jobs_inv (step (opaque throws) s (Enqueue j))"
proof (cases "isAcceptingWork s")
  case False
  then show ?thesis using assms by (simp add: enqueue_def)
next
  case True
  have "jobs_inv (notifyWorkersOfNewWork (ensureWorkers (opaque throws)
      (s\<lparr> jobCounter := jobCounter s + 1, accepted := accepted s @ [j],
            resolveMap := AList.update (jobCounter s) (jobCounter s) (resolveMap s),
            queue := queue s @ [\<lparr> execute = execute j, properties = properties j,
                                  concurrentJobId = jobCounter s \<rparr>] \<rparr>)))"
    using ensureWorkers_jobs_inv [OF enqueue_push_jobs_inv [OF assms, of j]]
    by simp
  then show ?thesis using True by (simp add: enqueue_def Let_def)
qed

lemma wake_cases:
  "wake (opaque throws) t s = s \<or>
   (\<exists>p. snd (tasks s ! t) = AwaitWork p \<and> signals s ! p \<and> wake (opaque throws) t s = worker_loop (opaque throws) t s)"
  by (cases "snd (tasks s ! t)") (simp_all add: wake_def)

lemma step_jobs_inv:
  assumes "jobs_inv s"
  shows "jobs_inv (step (opaque throws) s e)"
proof (cases e)
  case (Enqueue j)
  then show ?thesis using enqueue_jobs_inv [OF assms] by simp
next
  case WaitForIdle
  then show ?thesis using assms by (simp add: jobs_inv_cong [of "waitForIdle s" s])
next
  case FinishAllWork
  then show ?thesis using assms by (simp add: jobs_inv_cong [of "finishAllWork s" s])
next
  case (FinishResume k)
  then show ?thesis using assms by (simp add: jobs_inv_cong [of "finishAllWork_resume k s" s])
next
  case (Settle t res)
  then show ?thesis using assms by (simp add: worker_settled_jobs_inv)
next
  case (Wake t)
  show ?thesis
  proof (cases "t < length (tasks s)")
    case True
    have "jobs_inv (wake (opaque throws) t s)"
    proof (cases "wake (opaque throws) t s = s")
      case False
      then obtain p where "snd (tasks s ! t) = AwaitWork p" and "wake (opaque throws) t s = worker_loop (opaque throws) t s"
        using wake_cases [of throws t s] by blast
      then show ?thesis
        using worker_loop_jobs_inv [OF assms True] by simp
    qed (simp add: assms)
    then show ?thesis using True Wake by simp
  next
    case False
    then show ?thesis using assms Wake by simp
  qed
next
  case (Fire t)
  then show ?thesis using assms by (simp add: fire_jobs_inv)
next
  case (Advance d)
  then show ?thesis using assms by simp
qed

lemma step_active_inv:
  assumes "active_inv s" and "jobs_inv s"
  shows "active_inv (step (opaque throws) s e)"
proof (cases e)
  case (Enqueue j)
  show ?thesis
  proof (cases "isAcceptingWork s")
    case True
    have "active_inv (s\<lparr> jobCounter := jobCounter s + 1, accepted := accepted s @ [j],
            resolveMap := AList.update (jobCounter s) (jobCounter s) (resolveMap s),
            queue := queue s @ [\<lparr> execute = execute j, properties = properties j,
                                  concurrentJobId = jobCounter s \<rparr>] \<rparr>)"
      using assms(1) by (simp add: active_inv_def)
    then have "active_inv (ensureWorkers (opaque throws)
           (s\<lparr> jobCounter := jobCounter s + 1, accepted := accepted s @ [j],
            resolveMap := AList.update (jobCounter s) (jobCounter s) (resolveMap s),
            queue := queue s @ [\<lparr> execute = execute j, properties = properties j,
                                  concurrentJobId = jobCounter s \<rparr>] \<rparr>))"
      using enqueue_push_jobs_inv [OF assms(2), of j] by (rule ensureWorkers_active_inv)
    then show ?thesis
      using True Enqueue by (simp add: enqueue_def Let_def)
  next
    case False
    then show ?thesis using assms Enqueue by (simp add: enqueue_def)
  qed
next
  case WaitForIdle
  then show ?thesis using assms by (simp add: active_inv_def)
next
  case FinishAllWork
  then show ?thesis using assms by (simp add: active_inv_def)
next
  case (FinishResume k)
  then show ?thesis using assms by (simp add: active_inv_def)
next
  case (Settle t res)
  then show ?thesis using assms by (simp add: worker_settled_active_inv)
next
  case (Wake t)
  show ?thesis
  proof (cases "t < length (tasks s)")
    case True
    have "active_inv (wake (opaque throws) t s)"
    proof (cases "wake (opaque throws) t s = s")
      case False
      then obtain p where "snd (tasks s ! t) = AwaitWork p" and "wake (opaque throws) t s = worker_loop (opaque throws) t s"
        using wake_cases [of throws t s] by blast
      then show ?thesis
        using worker_loop_active [OF assms(2) True _ assms(1)] by simp
    qed (simp add: assms)
    then show ?thesis using True Wake by simp
  next
    case False
    then show ?thesis using assms Wake by simp
  qed
next
  case (Fire t)
  then show ?thesis using assms by (simp add: fire_active_inv)
next
  case (Advance d)
  then show ?thesis using assms by simp
qed

lemma pool_invariants: "active_inv (run (opaque throws) c es) \<and> jobs_inv (run (opaque throws) c es)"
proof (induction es rule: rev_induct)
  case Nil
  show ?case
    by (simp add: run_def newPool_def active_inv_def jobs_inv_def pending_jobs_def executing_Nil)
next
  case (snoc e es)
  then show ?case by (simp add: run_snoc step_active_inv step_jobs_inv)
qed


subsection \<open>Runs: workers and shutdown\<close>

lemma spawn_worker_building:
  assumes "building k s" and jinv: "jobs_inv s"
  shows "building (Suc k) (spawn_worker (opaque throws) s k)"
proof -
  let ?s0 = "s\<lparr> tasks := tasks s @ [(k + 1, Running)] \<rparr>"
  let ?t = "length (tasks s)"
  let ?s1 = "worker_loop (opaque throws) ?t ?s0"
  have len: "length (tasks s) = k"
    using assms by (metis building_def length_map length_upt diff_zero)
  have t: "?t < length (tasks ?s0)" by simp
  have j0: "jobs_inv ?s0"
    using jinv by (simp add: jobs_inv_def pending_jobs_def executing_append executing_Cons executing_Nil resolver_ok_def)
  have r0: "job_of (snd (tasks ?s0 ! ?t)) = []" by simp
  note sh = worker_loop_shape [OF j0 t r0, where throws = throws]
  have fst: "map fst (tasks ?s1) = map Suc [0 ..< Suc k]"
    using sh(1) assms by (simp add: building_def)
  have new: "suspended (snd (tasks ?s1 ! ?t)) \<and> snd (tasks ?s1 ! ?t) \<noteq> Returned"
    using sh(3,4) assms by (auto simp: building_def)
  have "set (tasks ?s1) \<subseteq> insert (tasks ?s1 ! ?t) (set (tasks ?s0))"
    using worker_loop_set_tasks [OF j0 t r0] .
  moreover have "\<forall>tk \<in> set (tasks ?s1). tk \<noteq> (k + 1, Running)"
  proof
    fix tk assume "tk \<in> set (tasks ?s1)"
    then obtain n where n: "n < length (tasks ?s1)" "tk = tasks ?s1 ! n"
      by (metis in_set_conv_nth)
    show "tk \<noteq> (k + 1, Running)"
    proof (cases "n = ?t")
      case True
      then show ?thesis using new n by (auto simp: suspended_def)
    next
      case False
      then have "tk = tasks s ! n" and "n < length (tasks s)"
        using n sh(2) [of n] by (simp_all add: nth_append)
      then have "tk \<in> set (tasks s)" by simp
      then show ?thesis using assms by (auto simp: building_def suspended_def)
    qed
  qed
  ultimately have all: "\<forall>tk \<in> set (tasks ?s1). suspended (snd tk) \<and> snd tk \<noteq> Returned"
    using new assms by (auto simp: building_def)
  show ?thesis
    using fst all assms len by (simp add: building_def spawn_worker_def Let_def)
qed

lemma foldl_spawn_building:
  assumes "building 0 s" and "jobs_inv s"
  shows "building n (foldl (spawn_worker (opaque throws)) s [0 ..< n])
     \<and> jobs_inv (foldl (spawn_worker (opaque throws)) s [0 ..< n])"
proof (induction n)
  case 0
  show ?case using assms by simp
next
  case (Suc n)
  then show ?case by (simp add: spawn_worker_building spawn_worker_jobs_inv)
qed

lemma spawn_worker_concurrency [simp]: "concurrency (spawn_worker (opaque throws) s i) = concurrency s"
  by (simp add: spawn_worker_def Let_def)

lemma foldl_spawn_concurrency [simp]:
  "concurrency (foldl (spawn_worker (opaque throws)) s xs) = concurrency s"
  by (induction xs arbitrary: s) simp_all

lemma enqueue_life_inv:
  assumes "life_inv s" and jinv: "jobs_inv s"
  shows "life_inv (step (opaque throws) s (Enqueue j))"
proof (cases "isAcceptingWork s")
  case False
  then show ?thesis using assms(1) by (simp add: enqueue_def)
next
  case True
  let ?s3 = "s\<lparr> jobCounter := jobCounter s + 1, accepted := accepted s @ [j],
            resolveMap := AList.update (jobCounter s) (jobCounter s) (resolveMap s),
            queue := queue s @ [\<lparr> execute = execute j, properties = properties j,
                                  concurrentJobId = jobCounter s \<rparr>] \<rparr>"
  note acc = life_inv_accepting [OF assms(1) True]
  have "life_inv (ensureWorkers (opaque throws) ?s3)"
  proof (cases "workers s = []")
    case True
    then have "tasks s = []" using acc(3) by simp
    then have "building 0 ?s3"
      using acc True \<open>isAcceptingWork s\<close> by (simp add: building_def)
    then have "building (nat (concurrency s)) (foldl (spawn_worker (opaque throws)) ?s3 [0 ..< nat (concurrency s)])"
      using foldl_spawn_building [OF _ enqueue_push_jobs_inv [OF jinv, of j]] by blast
    then have "life_inv (foldl (spawn_worker (opaque throws)) ?s3 [0 ..< nat (concurrency s)])"
      by (intro building_life_inv) simp
    then show ?thesis
      using True \<open>isAcceptingWork s\<close> by (simp add: ensureWorkers_def)
  next
    case False
    then have "tasks s \<noteq> []" using acc(3) by auto
    then have "life_inv ?s3"
      using assms(1) acc True by (simp add: life_inv_def finisher_ok_def)
    then show ?thesis using False by (simp add: ensureWorkers_def)
  qed
  then have "life_inv (notifyWorkersOfNewWork (ensureWorkers (opaque throws) ?s3))"
    by (simp add: life_inv_frame [of "notifyWorkersOfNewWork _"])
  then show ?thesis using True by (simp add: enqueue_def Let_def)
qed

lemma wake_life_inv:
  assumes inv: "life_inv s" and jinv: "jobs_inv s" and t: "t < length (tasks s)"
  shows "life_inv (wake (opaque throws) t s)"
proof (cases "wake (opaque throws) t s = s")
  case False
  then obtain p where "snd (tasks s ! t) = AwaitWork p" and "wake (opaque throws) t s = worker_loop (opaque throws) t s"
    using wake_cases [of throws t s] by blast
  then show ?thesis
    using worker_loop_life_inv [OF inv jinv t] by simp
qed (simp add: inv)

lemma step_life_inv:
  assumes "life_inv s" and "jobs_inv s"
  shows "life_inv (step (opaque throws) s e)"
proof (cases e)
  case (Enqueue j)
  then show ?thesis using enqueue_life_inv [OF assms] by simp
next
  case WaitForIdle
  then show ?thesis using assms by (simp add: life_inv_frame [of "waitForIdle s" s])
next
  case FinishAllWork
  then show ?thesis using assms by (simp add: finishAllWork_life_inv)
next
  case (FinishResume k)
  then show ?thesis using assms by (simp add: finishAllWork_resume_life_inv)
next
  case (Settle t res)
  then show ?thesis using assms by (simp add: worker_settled_life_inv)
next
  case (Wake t)
  then show ?thesis using assms by (simp add: wake_life_inv)
next
  case (Fire t)
  then show ?thesis using assms by (simp add: fire_life_inv)
next
  case (Advance d)
  then show ?thesis using assms by (simp add: life_inv_frame [of "s\<lparr>clock := _\<rparr>" s])
qed

lemma pool_life_inv: "life_inv (run (opaque throws) c es)"
proof (induction es rule: rev_induct)
  case Nil
  show ?case
    by (simp add: run_def newPool_def life_inv_def)
next
  case (snoc e es)
  then show ?case using pool_invariants [of throws c es] by (simp add: run_snoc step_life_inv)
qed


subsection \<open>Runs: the work-available signal\<close>

lemma spawn_worker_signal_core:
  assumes "signal_core s" and jinv: "jobs_inv s"
  shows "signal_core (spawn_worker (opaque throws) s i)"
proof -
  let ?s0 = "s\<lparr> tasks := tasks s @ [(i + 1, Running)] \<rparr>"
  let ?s1 = "worker_loop (opaque throws) (length (tasks s)) ?s0"
  have a: "signal_core ?s0"
    using assms(1) by (rule signal_core_append_running)
  have j0: "jobs_inv ?s0"
    using jinv by (simp add: jobs_inv_def pending_jobs_def executing_append executing_Cons executing_Nil resolver_ok_def)
  have b: "length (tasks s) < length (tasks ?s0)" by simp
  have c: "\<not> blocked ?s0 (length (tasks s))"
    unfolding blocked_iff by simp
  have "signal_core ?s1"
    using a j0 b c by (rule worker_loop_signal_core) simp
  moreover have "signal_core (?s1\<lparr> workers := workers ?s1 @ [length (tasks s)] \<rparr>) = signal_core ?s1"
    by (rule signal_core_frame) simp_all
  ultimately show ?thesis
    by (simp add: spawn_worker_def Let_def)
qed

lemma ensureWorkers_signal_core:
  assumes "signal_core s" and "jobs_inv s"
  shows "signal_core (ensureWorkers (opaque throws) s)"
proof -
  have "signal_core (foldl (spawn_worker (opaque throws)) s xs) \<and> jobs_inv (foldl (spawn_worker (opaque throws)) s xs)" for xs
    by (rule foldl_preserves [where P = "\<lambda>s. signal_core s \<and> jobs_inv s"])
      (simp_all add: assms spawn_worker_signal_core spawn_worker_jobs_inv)
  then show ?thesis using assms(1) by (simp add: ensureWorkers_def)
qed

lemma enqueue_signal_inv:
  assumes "signal_core s" and "no_lost_wakeup s" and jinv: "jobs_inv s"
  shows "signal_core (step (opaque throws) s (Enqueue j)) \<and> no_lost_wakeup (step (opaque throws) s (Enqueue j))"
proof (cases "isAcceptingWork s")
  case False
  then show ?thesis using assms by (simp add: enqueue_def)
next
  case True
  let ?s3 = "s\<lparr> jobCounter := jobCounter s + 1, accepted := accepted s @ [j],
            resolveMap := AList.update (jobCounter s) (jobCounter s) (resolveMap s),
            queue := queue s @ [\<lparr> execute = execute j, properties = properties j,
                                  concurrentJobId = jobCounter s \<rparr>] \<rparr>"
  have "signal_core ?s3 = signal_core s" by (rule signal_core_frame) simp_all
  then have "signal_core ?s3" using assms by simp
  then have e: "signal_core (ensureWorkers (opaque throws) ?s3)"
    using enqueue_push_jobs_inv [OF jinv, of j] by (rule ensureWorkers_signal_core)
  have eq: "step (opaque throws) s (Enqueue j) = notifyWorkersOfNewWork (ensureWorkers (opaque throws) ?s3)"
    using True by (simp add: enqueue_def Let_def)
  show ?thesis
    unfolding eq using notify_signal_core [OF e] notify_no_lost_wakeup [OF e] by simp
qed

lemma wake_signal_inv:
  assumes core: "signal_core s" and nl: "no_lost_wakeup s" and jinv: "jobs_inv s" and t: "t < length (tasks s)"
  shows "signal_core (wake (opaque throws) t s) \<and> no_lost_wakeup (wake (opaque throws) t s)"
proof (cases "wake (opaque throws) t s = s")
  case False
  then obtain p where w: "snd (tasks s ! t) = AwaitWork p" and sg: "signals s ! p"
    and eq: "wake (opaque throws) t s = worker_loop (opaque throws) t s"
    using wake_cases [of throws t s] by blast
  have nb: "\<not> blocked s t" unfolding blocked_iff using w sg by simp
  show ?thesis
    unfolding eq using worker_loop_signal_core [OF core jinv t nb] worker_loop_no_lost_wakeup [OF nl jinv t] w
    by simp
qed (simp add: core nl)

lemma step_signal_inv:
  assumes "signal_core s" and "no_lost_wakeup s" and "jobs_inv s"
  shows "signal_core (step (opaque throws) s e) \<and> no_lost_wakeup (step (opaque throws) s e)"
proof (cases e)
  case (Enqueue j)
  then show ?thesis using enqueue_signal_inv [OF assms] by simp
next
  case WaitForIdle
  have "signal_core (waitForIdle s) = signal_core s" by (rule signal_core_frame) simp_all
  moreover have "no_lost_wakeup (waitForIdle s) = no_lost_wakeup s" by (rule no_lost_wakeup_frame) simp_all
  ultimately show ?thesis using assms WaitForIdle by simp
next
  case FinishAllWork
  then show ?thesis using finishAllWork_signal_inv [OF assms(1)] by simp
next
  case (FinishResume k)
  have "signal_core (finishAllWork_resume k s) = signal_core s" by (rule signal_core_frame) simp_all
  moreover have "no_lost_wakeup (finishAllWork_resume k s) = no_lost_wakeup s"
    by (rule no_lost_wakeup_frame) simp_all
  ultimately show ?thesis using assms FinishResume by simp
next
  case (Settle t res)
  then show ?thesis using assms worker_settled_signal_inv [of s t throws res] by simp
next
  case (Wake t)
  then show ?thesis using assms wake_signal_inv [of s t throws] by simp
next
  case (Fire t)
  then show ?thesis using assms fire_signal_inv [of t s] by simp
next
  case (Advance d)
  have "signal_core (s\<lparr> clock := clock s + d \<rparr>) = signal_core s" by (rule signal_core_frame) simp_all
  moreover have "no_lost_wakeup (s\<lparr> clock := clock s + d \<rparr>) = no_lost_wakeup s"
    by (rule no_lost_wakeup_frame) simp_all
  ultimately show ?thesis using assms Advance by simp
qed

lemma pool_signal_inv: "signal_core (run (opaque throws) c es) \<and> no_lost_wakeup (run (opaque throws) c es)"
proof (induction es rule: rev_induct)
  case Nil
  show ?case
    by (simp add: run_def newPool_def signal_core_def no_lost_wakeup_def)
next
  case (snoc e es)
  then show ?case using pool_invariants [of throws c es] by (simp add: run_snoc step_signal_inv)
qed


subsection \<open>Runs: the callers waiting for idle\<close>

lemma spawn_worker_waiter_inv:
  assumes "waiter_inv s" and "active_inv s" and "jobs_inv s"
  shows "waiter_inv (spawn_worker (opaque throws) s i)"
proof -
  let ?s0 = "s\<lparr> tasks := tasks s @ [(i + 1, Running)] \<rparr>"
  have "waiter_inv ?s0 = waiter_inv s" by (rule waiter_inv_frame) simp_all
  then have w0: "waiter_inv ?s0" using assms(1) by simp
  have j0: "jobs_inv ?s0"
    using assms(3) by (simp add: jobs_inv_def pending_jobs_def executing_append executing_Cons executing_Nil resolver_ok_def)
  have a0: "active_inv ?s0"
    using assms(2) by (simp add: active_inv_def executing_append executing_Cons executing_Nil)
  have w1: "waiter_inv (worker_loop (opaque throws) (length (tasks s)) ?s0)"
    using w0 a0 j0 by (rule worker_loop_waiter_inv) simp_all
  have "waiter_inv (spawn_worker (opaque throws) s i)
      = waiter_inv (worker_loop (opaque throws) (length (tasks s)) ?s0)"
    by (rule waiter_inv_frame) (simp_all add: spawn_worker_def Let_def)
  then show ?thesis using w1 by simp
qed

lemma ensureWorkers_waiter_inv:
  assumes "waiter_inv s" and "active_inv s" and "jobs_inv s"
  shows "waiter_inv (ensureWorkers (opaque throws) s)"
proof -
  have "waiter_inv (foldl (spawn_worker (opaque throws)) s xs)
      \<and> active_inv (foldl (spawn_worker (opaque throws)) s xs)
      \<and> jobs_inv (foldl (spawn_worker (opaque throws)) s xs)" for xs
    by (rule foldl_preserves [where P = "\<lambda>s. waiter_inv s \<and> active_inv s \<and> jobs_inv s"])
      (simp_all add: assms spawn_worker_waiter_inv spawn_worker_active_inv spawn_worker_jobs_inv)
  then show ?thesis using assms(1) by (simp add: ensureWorkers_def)
qed

lemma spawn_worker_frame [simp]:
  "idleCalls (spawn_worker (opaque throws) s i) = idleCalls s"
  "warnings (spawn_worker (opaque throws) s i) = warnings s"
  "clock (spawn_worker (opaque throws) s i) = clock s"
  "accepted (spawn_worker (opaque throws) s i) = accepted s"
  "jobCounter (spawn_worker (opaque throws) s i) = jobCounter s"
  "isAcceptingWork (spawn_worker (opaque throws) s i) = isAcceptingWork s"
  "finishers (spawn_worker (opaque throws) s i) = finishers s"
  by (simp_all add: spawn_worker_def Let_def)

lemma ensureWorkers_frame [simp]:
  "idleCalls (ensureWorkers (opaque throws) s) = idleCalls s"
  "warnings (ensureWorkers (opaque throws) s) = warnings s"
  "clock (ensureWorkers (opaque throws) s) = clock s"
  "accepted (ensureWorkers (opaque throws) s) = accepted s"
  "jobCounter (ensureWorkers (opaque throws) s) = jobCounter s"
  "isAcceptingWork (ensureWorkers (opaque throws) s) = isAcceptingWork s"
  "finishers (ensureWorkers (opaque throws) s) = finishers s"
proof -
  have "idleCalls (foldl (spawn_worker (opaque throws)) s xs) = idleCalls s \<and>
        warnings (foldl (spawn_worker (opaque throws)) s xs) = warnings s \<and>
        clock (foldl (spawn_worker (opaque throws)) s xs) = clock s \<and>
        accepted (foldl (spawn_worker (opaque throws)) s xs) = accepted s \<and>
        jobCounter (foldl (spawn_worker (opaque throws)) s xs) = jobCounter s \<and>
        isAcceptingWork (foldl (spawn_worker (opaque throws)) s xs) = isAcceptingWork s \<and>
        finishers (foldl (spawn_worker (opaque throws)) s xs) = finishers s" for xs
    by (induction xs arbitrary: s) simp_all
  then show "idleCalls (ensureWorkers (opaque throws) s) = idleCalls s"
    "warnings (ensureWorkers (opaque throws) s) = warnings s"
    "clock (ensureWorkers (opaque throws) s) = clock s"
    "accepted (ensureWorkers (opaque throws) s) = accepted s"
    "jobCounter (ensureWorkers (opaque throws) s) = jobCounter s"
    "isAcceptingWork (ensureWorkers (opaque throws) s) = isAcceptingWork s"
    "finishers (ensureWorkers (opaque throws) s) = finishers s"
    by (simp_all add: ensureWorkers_def)
qed

lemma enqueue_accepted_eq:
  assumes "isAcceptingWork s"
  shows "step (opaque throws) s (Enqueue j) =
     notifyWorkersOfNewWork (ensureWorkers (opaque throws)
       (s\<lparr> jobCounter := jobCounter s + 1, accepted := accepted s @ [j],
            resolveMap := AList.update (jobCounter s) (jobCounter s) (resolveMap s),
            queue := queue s @ [\<lparr> execute = execute j, properties = properties j,
                                  concurrentJobId = jobCounter s \<rparr>] \<rparr>))"
  using assms by (simp add: enqueue_def Let_def)

lemma enqueue_waiter_inv:
  assumes inv: "waiter_inv s" and ainv: "active_inv s" and jinv: "jobs_inv s"
  shows "waiter_inv (step (opaque throws) s (Enqueue j))"
proof (cases "isAcceptingWork s")
  case False
  then show ?thesis using inv by (simp add: enqueue_def)
next
  case True
  let ?s3 = "s\<lparr> jobCounter := jobCounter s + 1, accepted := accepted s @ [j],
            resolveMap := AList.update (jobCounter s) (jobCounter s) (resolveMap s),
            queue := queue s @ [\<lparr> execute = execute j, properties = properties j,
                                  concurrentJobId = jobCounter s \<rparr>] \<rparr>"
  have w3: "waiter_inv ?s3" using inv by (simp add: waiter_inv_def idle_def)
  have a3: "active_inv ?s3" using ainv by (simp add: active_inv_def)
  have j3: "jobs_inv ?s3" using jinv by (rule enqueue_push_jobs_inv)
  have "waiter_inv (ensureWorkers (opaque throws) ?s3)"
    using w3 a3 j3 by (rule ensureWorkers_waiter_inv)
  moreover have "waiter_inv (notifyWorkersOfNewWork (ensureWorkers (opaque throws) ?s3))
      = waiter_inv (ensureWorkers (opaque throws) ?s3)"
    by (rule waiter_inv_frame) simp_all
  ultimately show ?thesis
    unfolding enqueue_accepted_eq [OF True] by simp
qed

lemma step_waiter_inv:
  assumes inv: "waiter_inv s" and ainv: "active_inv s" and jinv: "jobs_inv s"
  shows "waiter_inv (step (opaque throws) s e)"
proof (cases e)
  case (Enqueue j)
  then show ?thesis using enqueue_waiter_inv [OF inv ainv jinv] by simp
next
  case WaitForIdle
  then show ?thesis using waitForIdle_waiter_inv [OF inv] by simp
next
  case FinishAllWork
  have "waiter_inv (finishAllWork s) = waiter_inv s" by (rule waiter_inv_frame) simp_all
  then show ?thesis using inv FinishAllWork by simp
next
  case (FinishResume k)
  have "waiter_inv (finishAllWork_resume k s) = waiter_inv s" by (rule waiter_inv_frame) simp_all
  then show ?thesis using inv FinishResume by simp
next
  case (Settle t res)
  then show ?thesis using worker_settled_waiter_inv [OF inv ainv jinv] inv by simp
next
  case (Wake t)
  show ?thesis
  proof (cases "t < length (tasks s) \<and> wake (opaque throws) t s \<noteq> s")
    case True
    then obtain p where w: "snd (tasks s ! t) = AwaitWork p"
      and eq: "wake (opaque throws) t s = worker_loop (opaque throws) t s"
      using wake_cases [of throws t s] by blast
    have "waiter_inv (worker_loop (opaque throws) t s)"
      using inv ainv jinv by (rule worker_loop_waiter_inv) (use True w in simp_all)
    then show ?thesis using Wake True eq by simp
  next
    case False
    then show ?thesis using Wake inv by auto
  qed
next
  case (Fire t)
  have "waiter_inv (fire t s) = waiter_inv s" by (rule waiter_inv_frame) simp_all
  then show ?thesis using inv Fire by simp
next
  case (Advance d)
  have "waiter_inv (s\<lparr> clock := clock s + d \<rparr>) = waiter_inv s" by (rule waiter_inv_frame) simp_all
  then show ?thesis using inv Advance by simp
qed

lemma pool_waiter_inv: "waiter_inv (run (opaque throws) c es)"
proof (induction es rule: rev_induct)
  case Nil
  show ?case
    by (simp add: run_def newPool_def waiter_inv_def)
next
  case (snoc e es)
  then show ?case using pool_invariants [of throws c es] by (simp add: run_snoc step_waiter_inv)
qed


subsection \<open>Runs: the watchdog timers\<close>

lemma spawn_worker_timer_inv:
  assumes "timer_inv s"
  shows "timer_inv (spawn_worker (opaque throws) s i)"
proof -
  let ?s0 = "s\<lparr> tasks := tasks s @ [(i + 1, Running)] \<rparr>"
  have "timer_inv ?s0"
  proof (rule timer_invI)
    fix n assume "n < length (tasks ?s0)"
    then show "timer_ok (clock ?s0) (snd (tasks ?s0 ! n))"
      using timer_invD [OF assms, of n] by (cases "n = length (tasks s)") (simp_all add: nth_append)
  qed
  then have "timer_inv (worker_loop (opaque throws) (length (tasks s)) ?s0)"
    by (rule worker_loop_timer_inv) simp
  moreover have "timer_inv (spawn_worker (opaque throws) s i) = timer_inv (worker_loop (opaque throws) (length (tasks s)) ?s0)"
    by (rule timer_inv_frame) (simp_all add: spawn_worker_def Let_def)
  ultimately show ?thesis by simp
qed

lemma ensureWorkers_timer_inv: "timer_inv s \<Longrightarrow> timer_inv (ensureWorkers (opaque throws) s)"
  by (simp add: ensureWorkers_def foldl_preserves [where P = timer_inv] spawn_worker_timer_inv)

lemma enqueue_timer_inv:
  assumes "timer_inv s"
  shows "timer_inv (step (opaque throws) s (Enqueue j))"
proof (cases "isAcceptingWork s")
  case False
  then show ?thesis using assms by (simp add: enqueue_def)
next
  case True
  let ?s3 = "s\<lparr> jobCounter := jobCounter s + 1, accepted := accepted s @ [j],
            resolveMap := AList.update (jobCounter s) (jobCounter s) (resolveMap s),
            queue := queue s @ [\<lparr> execute = execute j, properties = properties j,
                                  concurrentJobId = jobCounter s \<rparr>] \<rparr>"
  have "timer_inv ?s3 = timer_inv s" by (rule timer_inv_frame) simp_all
  then have "timer_inv (ensureWorkers (opaque throws) ?s3)" using assms ensureWorkers_timer_inv by blast
  moreover have "timer_inv (notifyWorkersOfNewWork (ensureWorkers (opaque throws) ?s3)) = timer_inv (ensureWorkers (opaque throws) ?s3)"
    by (rule timer_inv_frame) simp_all
  ultimately show ?thesis unfolding enqueue_accepted_eq [OF True] by simp
qed

lemma advance_timer_inv:
  assumes inv: "timer_inv s"
  shows "timer_inv (step (opaque throws) s (Advance d))"
proof (cases "timers_allow (tasks s) (clock s + d)")
  case False
  then show ?thesis using inv by simp
next
  case True
  have "timer_inv (s\<lparr> clock := clock s + d \<rparr>)"
  proof (rule timer_invI)
    fix n assume n: "n < length (tasks (s\<lparr> clock := clock s + d \<rparr>))"
    show "timer_ok (clock (s\<lparr> clock := clock s + d \<rparr>)) (snd (tasks (s\<lparr> clock := clock s + d \<rparr>) ! n))"
    proof (cases "snd (tasks s ! n)")
      case (AwaitJob j resolve startTime ticks)
      have "clock s + d \<le> due startTime ticks"
        using timers_allow_nth [OF True _ AwaitJob] n by simp
      moreover have "startTime + 60000 * ticks \<le> clock s"
        using timer_invD [OF inv, of n] n AwaitJob by (simp add: timer_ok_def)
      ultimately show ?thesis using AwaitJob by (simp add: timer_ok_def)
    qed simp_all
  qed
  then show ?thesis using True by simp
qed

lemma step_timer_inv:
  assumes inv: "timer_inv s"
  shows "timer_inv (step (opaque throws) s e)"
proof (cases e)
  case (Enqueue j)
  then show ?thesis using enqueue_timer_inv [OF inv] by simp
next
  case WaitForIdle
  have "timer_inv (waitForIdle s) = timer_inv s" by (rule timer_inv_frame) simp_all
  then show ?thesis using inv WaitForIdle by simp
next
  case FinishAllWork
  have "timer_inv (finishAllWork s) = timer_inv s" by (rule timer_inv_frame) simp_all
  then show ?thesis using inv FinishAllWork by simp
next
  case (FinishResume k)
  have "timer_inv (finishAllWork_resume k s) = timer_inv s" by (rule timer_inv_frame) simp_all
  then show ?thesis using inv FinishResume by simp
next
  case (Settle t res)
  then show ?thesis using worker_settled_timer_inv [OF inv] inv by simp
next
  case (Wake t)
  show ?thesis
  proof (cases "t < length (tasks s)")
    case True
    have "timer_inv (worker_loop (opaque throws) t s)" using inv True by (rule worker_loop_timer_inv)
    then have "timer_inv (wake (opaque throws) t s)" using wake_cases [of throws t s] inv by auto
    then show ?thesis using Wake True by simp
  next
    case False
    then show ?thesis using Wake inv by simp
  qed
next
  case (Fire t)
  then show ?thesis using fire_timer_inv [OF inv] inv by simp
next
  case (Advance d)
  then show ?thesis using advance_timer_inv [OF inv] by simp
qed

lemma pool_timer_inv: "timer_inv (run (opaque throws) c es)"
proof (induction es rule: rev_induct)
  case Nil
  show ?case by (simp add: run_def newPool_def timer_inv_def)
next
  case (snoc e es)
  then show ?case by (simp add: run_snoc step_timer_inv)
qed


subsection \<open>Runs: the number of workers\<close>

lemma step_concurrency: "concurrency (step (opaque throws) s e) = concurrency s"
proof (cases e)
  case (Enqueue j)
  then show ?thesis
    by (simp add: enqueue_def ensureWorkers_def Let_def)
next
  case (Settle t res)
  then show ?thesis
    by (simp add: worker_settled_def Let_def split: wstate.splits option.splits)
next
  case (Wake t)
  then show ?thesis by (simp add: wake_def split: wstate.splits)
qed simp_all

lemma run_concurrency: "concurrency (run (opaque throws) c es) = c"
  by (induction es rule: rev_induct) (simp_all add: run_snoc step_concurrency run_def newPool_def)

lemma pool_bound_without_reentry:
  assumes "1 \<le> c"
  shows "length (tasks (run (opaque throws) c es)) \<le> nat c"
    and "length (executing (tasks (run (opaque throws) c es))) \<le> nat c"
    and "activeJobCount (run (opaque throws) c es) \<le> c"
proof -
  let ?s = "run (opaque throws) c es"
  have "tasks ?s = [] \<or> map fst (tasks ?s) = map Suc [0 ..< nat (concurrency ?s)]"
    using pool_life_inv [of throws c es] unfolding life_inv_def by blast
  then have "tasks ?s = [] \<or> length (tasks ?s) = nat c"
    unfolding run_concurrency by (metis length_map length_upt diff_zero)
  then show l: "length (tasks ?s) \<le> nat c" by auto
  show e: "length (executing (tasks ?s)) \<le> nat c"
    using l length_executing [of "tasks ?s"] by linarith
  have "activeJobs ?s = int (length (executing (tasks ?s)))"
    using pool_invariants [of throws c es] unfolding active_inv_def by blast
  then show "activeJobCount ?s \<le> c"
    using e assms unfolding activeJobCount_def by linarith
qed

section \<open>The claims\<close>

text \<open>
  C1 (the code breaks it). The claim: at most \<open>concurrency\<close> jobs execute at once, the
  pool creating exactly \<open>concurrency\<close> worker loops. In \<open>ensureWorkers\<close> the guard
  \<open>this.workers.length === 0\<close> still holds while the first worker runs, because its
  promise is pushed only after \<open>this.worker(i + 1)\<close> returns; and that call runs the first
  job's \<open>execute\<close> up to its first suspension. A job that submits another job there makes
  the nested \<open>enqueue\<close> create a second set of workers: with concurrency 1, two workers
  exist and two jobs execute at once.
\<close>

theorem pool_reentrant_enqueue_doubles_workers:
  "activeJobCount (run submits_child 1 [Enqueue parent_job]) = 2
   \<and> length (executing (tasks (run submits_child 1 [Enqueue parent_job]))) = 2
   \<and> length (tasks (run submits_child 1 [Enqueue parent_job])) = 2
   \<and> concurrency (run submits_child 1 [Enqueue parent_job]) = 1"
  by (simp add: run_def newPool_def enqueue_def ensureWorkers_def spawn_worker_def
      worker_loop.simps set_task_def notifyWorkersOfNewWork_def submits_child_def
      parent_job_def child_job_def opaque_def activeJobCount_def executing_def Let_def)



text \<open>
  C6 (as stated it fails). The claim: every \<open>concurrency\<close> that is \<open>\<le> 0\<close> or not a number
  makes \<open>runJobs\<close> fail with the \<open>Invalid concurrency\<close> error. The check is
  \<open>concurrency == null || concurrency === undefined || concurrency <= 0\<close>, and \<open>NaN <= 0\<close>
  is false: \<open>NaN\<close>, and a string or an object that converts to \<open>NaN\<close>, pass the check and
  fail in \<open>Array(NaN)\<close> with a \<open>RangeError\<close>; \<open>true\<close> converts to 1, passes the check and
  the job runs.
\<close>

theorem runJobs_accepts_non_numeric:
  "runJobs never_throws [job_a] (Number NaN) = Inl (RangeError, not_started [job_a])
   \<and> runJobs never_throws [job_a] (Other NaN) = Inl (RangeError, not_started [job_a])
   \<and> runJobs never_throws [job_a] (Other (Finite 1)) = Inr one_job_started
   \<and> executed one_job_started = [0]"
  by (simp add: runJobs_def not_started_def one_job_started_def spawn_runner_def
      runner_loop_suspends set_runner_def never_throws_def job_a_def Let_def)

text \<open>
  C6, amended. For every value of \<open>concurrency\<close> and every \<open>jobs\<close>, no \<open>execute\<close> has been
  called and no worker exists when \<open>runJobs\<close> throws, and
  \<^item> \<open>null\<close>, \<open>undefined\<close>, a bigint \<open>\<le> 0\<close>, and a number or other value that converts to
    \<open>-Infinity\<close> or to a finite number \<open>\<le> 0\<close>: the error
    \<open>Invalid concurrency: ... Must be a positive integer.\<close>;
  \<^item> a symbol, a bigint \<open>> 0\<close>: a \<open>TypeError\<close>;
  \<^item> a value that converts to \<open>NaN\<close>, or to a finite number \<open>> 0\<close> whose minimum with
    \<open>jobs.length\<close> is not an integer (or exceeds \<open>2^32 - 1\<close>): a \<open>RangeError\<close>;
  \<^item> a value that converts to \<open>Infinity\<close> or to a finite number \<open>> 0\<close> whose minimum with
    \<open>jobs.length\<close> is an integer, for an array of at most \<open>2^32 - 1\<close> jobs: no error; in
    particular every integer \<open>\<ge> 1\<close>.
\<close>

theorem runJobs_concurrency_check:
  fixes body :: "'r throwing" and js :: "job list"
  shows
  "((c = Null \<or> c = Undefined \<or> (\<exists>b. c = BigInt b \<and> b \<le> 0)
      \<or> (\<exists>x. (c = Number x \<or> c = Other x) \<and> (x = NegInfinity \<or> (\<exists>q. x = Finite q \<and> q \<le> 0))))
     \<longrightarrow> (\<exists>s :: ('v, 'r) oneShot.
            runJobs body js c
              = Inl (TemplateError ''Invalid concurrency: '' c ''. Must be a positive integer.'', s)
            \<and> executed s = [] \<and> runners s = []))
   \<and> ((c = Symbol \<or> (\<exists>b. c = BigInt b \<and> 0 < b))
     \<longrightarrow> (\<exists>s :: ('v, 'r) oneShot. runJobs body js c = Inl (TypeError, s) \<and> executed s = [] \<and> runners s = []))
   \<and> ((\<exists>x. (c = Number x \<or> c = Other x) \<and>
           (x = NaN \<or> (\<exists>q. x = Finite q \<and> 0 < q \<and>
              (of_int \<lfloor>min q (of_nat (length js))\<rfloor> \<noteq> min q (of_nat (length js))
               \<or> 4294967295 < min q (of_nat (length js))))))
     \<longrightarrow> (\<exists>s :: ('v, 'r) oneShot. runJobs body js c = Inl (RangeError, s) \<and> executed s = [] \<and> runners s = []))
   \<and> ((\<exists>x. (c = Number x \<or> c = Other x) \<and> length js \<le> 4294967295 \<and>
           (x = PosInfinity \<or> (\<exists>q. x = Finite q \<and> 0 < q \<and>
              of_int \<lfloor>min q (of_nat (length js))\<rfloor> = min q (of_nat (length js)))))
     \<longrightarrow> (\<exists>s :: ('v, 'r) oneShot. runJobs body js c = Inr s))
   \<and> (\<forall>k. 1 \<le> k \<and> length js \<le> 4294967295
     \<longrightarrow> (\<exists>s :: ('v, 'r) oneShot. runJobs body js (Number (Finite (of_int k))) = Inr s))"
proof (intro conjI impI allI)
  assume "c = Null \<or> c = Undefined \<or> (\<exists>b. c = BigInt b \<and> b \<le> 0)
      \<or> (\<exists>x. (c = Number x \<or> c = Other x) \<and> (x = NegInfinity \<or> (\<exists>q. x = Finite q \<and> q \<le> 0)))"
  then show "\<exists>s :: ('v, 'r) oneShot.
            runJobs body js c
              = Inl (TemplateError ''Invalid concurrency: '' c ''. Must be a positive integer.'', s)
            \<and> executed s = [] \<and> runners s = []"
    by (auto simp: runJobs_def Let_def)
next
  assume "c = Symbol \<or> (\<exists>b. c = BigInt b \<and> 0 < b)"
  then show "\<exists>s :: ('v, 'r) oneShot. runJobs body js c = Inl (TypeError, s) \<and> executed s = [] \<and> runners s = []"
    by (auto simp: runJobs_def Let_def)
next
  assume "\<exists>x. (c = Number x \<or> c = Other x) \<and>
           (x = NaN \<or> (\<exists>q. x = Finite q \<and> 0 < q \<and>
              (of_int \<lfloor>min q (of_nat (length js))\<rfloor> \<noteq> min q (of_nat (length js))
               \<or> 4294967295 < min q (of_nat (length js)))))"
  then show "\<exists>s :: ('v, 'r) oneShot. runJobs body js c = Inl (RangeError, s) \<and> executed s = [] \<and> runners s = []"
    by (auto simp: runJobs_def Let_def)
next
  assume "\<exists>x. (c = Number x \<or> c = Other x) \<and> length js \<le> 4294967295 \<and>
           (x = PosInfinity \<or> (\<exists>q. x = Finite q \<and> 0 < q \<and>
              of_int \<lfloor>min q (of_nat (length js))\<rfloor> = min q (of_nat (length js))))"
  then obtain x where c: "c = Number x \<or> c = Other x" and l: "length js \<le> 4294967295"
    and x: "x = PosInfinity \<or> (\<exists>q. x = Finite q \<and> 0 < q \<and>
              of_int \<lfloor>min q (of_nat (length js))\<rfloor> = min q (of_nat (length js)))"
    by blast
  have l': "(of_nat (length js) :: real) \<le> 4294967295"
    using l by (metis of_nat_le_iff of_nat_numeral)
  have "\<exists>n. array_length (math_min x (length js)) = Some n"
  proof (cases "x = PosInfinity")
    case True
    then show ?thesis using l' by simp
  next
    case False
    then obtain q where q: "x = Finite q" "0 < q"
      "of_int \<lfloor>min q (of_nat (length js))\<rfloor> = min q (of_nat (length js))"
      using x by blast
    have "min q (of_nat (length js)) \<le> 4294967295" using l' by (simp add: min_def)
    moreover have "0 \<le> min q (of_nat (length js))" using q(2) by (simp add: min_def)
    ultimately show ?thesis using q(1,3) by simp
  qed
  then obtain n where n: "array_length (math_min x (length js)) = Some n" by blast
  have "less_eq_zero c = Inr False" "to_number c = Inr x" "c \<noteq> Null" "c \<noteq> Undefined"
    using c x by auto
  then show "\<exists>s :: ('v, 'r) oneShot. runJobs body js c = Inr s"
    using runJobs_Inr [of c x js n body] n by blast
next
  fix k :: int
  assume k: "1 \<le> k \<and> length js \<le> 4294967295"
  have m: "min (of_int k :: real) (of_nat (length js)) = of_int (min k (int (length js)))"
    by (simp add: min_def)
  have "0 \<le> min k (int (length js))" "min k (int (length js)) \<le> 4294967295"
    using k by linarith+
  then have "array_length (Finite (of_int (min k (int (length js))))) = Some (nat (min k (int (length js))))"
    by (rule array_length_of_int)
  then have al: "array_length (math_min (Finite (of_int k)) (length js)) = Some (nat (min k (int (length js))))"
    unfolding math_min.simps m .
  have le: "less_eq_zero (Number (Finite (of_int k))) = Inr False" using k by simp
  have "(runJobs body js (Number (Finite (of_int k))) :: (thrown \<times> ('v, 'r) oneShot) + ('v, 'r) oneShot) =
     Inr (foldl (spawn_runner body)
           \<lparr> jobs = js, results = [], nextIndex = 0, runners = [], time = 0, logged = [], executed = [] \<rparr>
           [0 ..< nat (min k (int (length js)))])"
    using _ _ le _ al by (rule runJobs_Inr) simp_all
  then show "\<exists>s :: ('v, 'r) oneShot. runJobs body js (Number (Finite (of_int k))) = Inr s"
    by blast
qed

theorem runJobs_concurrency_check_witness:
  "runJobs never_throws [job_a] (Number (Finite 0))
     = Inl (TemplateError ''Invalid concurrency: '' (Number (Finite 0)) ''. Must be a positive integer.'',
            not_started [job_a])
   \<and> runJobs never_throws [job_a] Null
     = Inl (TemplateError ''Invalid concurrency: '' Null ''. Must be a positive integer.'', not_started [job_a])
   \<and> runJobs never_throws [job_a] Symbol = Inl (TypeError, not_started [job_a])
   \<and> runJobs never_throws [job_a] (Number (Finite (1 / 2))) = Inl (RangeError, not_started [job_a])
   \<and> runJobs never_throws [job_a] (Number PosInfinity) = Inr one_job_started
   \<and> runJobs never_throws [job_a] (Number (Finite 1)) = Inr one_job_started
   \<and> executed (not_started [job_a]) = []"
  using runJobs_concurrency_check [where 'v = string, of "Number (Finite 0)" never_throws "[job_a]"]
    runJobs_concurrency_check [where 'v = string, of Null never_throws "[job_a]"]
    runJobs_concurrency_check [where 'v = string, of Symbol never_throws "[job_a]"]
    runJobs_concurrency_check [where 'v = string, of "Number (Finite (1 / 2))" never_throws "[job_a]"]
    runJobs_concurrency_check [where 'v = string, of "Number PosInfinity" never_throws "[job_a]"]
  by (simp add: runJobs_def not_started_def one_job_started_def spawn_runner_def
      runner_loop_suspends set_runner_def never_throws_def job_a_def Let_def)

end
